theory Spec2Isabelle
  imports Main "HOL-Library.AList" "HOL-Library.Multiset"
begin

section \<open>The cli parser of cnc: a shallow embedding of parser.go and type.go\<close>

text \<open>
  The Go package \<^verbatim>\<open>cli\<close> keeps a \<^verbatim>\<open>Parser\<close> with the registered root commands,
  resolves an argument vector against them (\<^verbatim>\<open>Eval\<close>) and runs the lifecycle hooks of
  the resolved chain (\<^verbatim>\<open>Execute\<close>). A Go panic and an error return are both values
  of the type \<open>failure\<close>; every index and slice expression of the source that can go
  out of range is written with its check.
\<close>

subsection \<open>Failures\<close>

datatype error =
    ErrCommandNotFound string
  | ErrNoSuchFlag string
  | ErrArrayOverCapacity
  | ErrRequiredFlagNotSet string
  | ErrCoercion string

datatype panic =
    IndexOutOfRange
  | SliceBoundsOutOfRange
  | NotPtrToStruct
  | ReflectElemOfInvalidType
  | ReflectNumFieldOfNonStruct
  | UserPanic string

datatype failure = Err error | Panic panic

subsection \<open>Strings, slices and paths of the Go library\<close>

text \<open>\<^verbatim>\<open>xs[i]\<close>: None is the run-time panic "index out of range".\<close>

definition idx :: "'a list \<Rightarrow> nat \<Rightarrow> 'a option" where
  "idx xs i = (if i < length xs then Some (xs ! i) else None)"

text \<open>\<^verbatim>\<open>s[:k]\<close> and \<^verbatim>\<open>s[k:]\<close>: None is the panic "slice bounds out of range".\<close>

definition sliceTo :: "string \<Rightarrow> int \<Rightarrow> string option" where
  "sliceTo s k = (if 0 \<le> k \<and> k \<le> int (length s) then Some (take (nat k) s) else None)"

definition sliceFrom :: "string \<Rightarrow> int \<Rightarrow> string option" where
  "sliceFrom s k = (if 0 \<le> k \<and> k \<le> int (length s) then Some (drop (nat k) s) else None)"

definition strings_HasPrefix :: "string \<Rightarrow> string \<Rightarrow> bool" where
  "strings_HasPrefix s pre = (take (length pre) s = pre)"

definition strings_TrimLeft :: "string \<Rightarrow> string \<Rightarrow> string" where
  "strings_TrimLeft s cutset = dropWhile (\<lambda>c. c \<in> set cutset) s"

fun indexFrom :: "string \<Rightarrow> string \<Rightarrow> nat \<Rightarrow> int" where
  "indexFrom [] sep k = (if sep = [] then int k else - 1)"
| "indexFrom (c # cs) sep k =
     (if take (length sep) (c # cs) = sep then int k else indexFrom cs sep (Suc k))"

text \<open>\<^verbatim>\<open>strings.Index(s, sep)\<close>: the first position of \<open>sep\<close> in \<open>s\<close>, or -1.\<close>

definition strings_Index :: "string \<Rightarrow> string \<Rightarrow> int" where
  "strings_Index s sep = indexFrom s sep 0"

text \<open>\<^verbatim>\<open>filepath.Base\<close> on a system whose separator is the slash.\<close>

definition filepath_Base :: "string \<Rightarrow> string" where
  "filepath_Base pth =
     (if pth = [] then ''.''
      else let stripped = rev (dropWhile (\<lambda>c. c = CHR ''/'') (rev pth));
               lst = rev (takeWhile (\<lambda>c. c \<noteq> CHR ''/'') (rev stripped))
           in if lst = [] then ''/'' else lst)"

text \<open>parser.go, \<^verbatim>\<open>isFlag\<close>.\<close>

definition isFlag :: "string \<Rightarrow> bool" where
  "isFlag s = (strings_HasPrefix s ''-'' \<and> strings_TrimLeft s ''-'' \<noteq> [])"

subsection \<open>Types as reflect sees them (type.go)\<close>

datatype Kind =
    Invalid | Bool | IntK | Int8 | Int16 | Int32 | Int64
  | Uint | Uint8 | Uint16 | Uint32 | Uint64 | Uintptr
  | Float32 | Float64 | Complex64 | Complex128
  | Array | Chan | Func | Interface | Map | Ptr | Slice | String | Struct | UnsafePointer

text \<open>
  A \<^verbatim>\<open>reflect.Type\<close>. \<open>Scalar k\<close> stands for a type of a kind \<open>k\<close> that has neither
  an element type nor fields.
\<close>

datatype rtype =
    Scalar Kind
  | PtrTo rtype
  | SliceOf rtype
  | ArrayOf nat rtype
  | MapOf rtype rtype
  | ChanOf rtype
  | StructOf "(string \<times> rtype) list"

fun KindOf :: "rtype \<Rightarrow> Kind" where
  "KindOf (Scalar k) = k"
| "KindOf (PtrTo t) = Ptr"
| "KindOf (SliceOf t) = Slice"
| "KindOf (ArrayOf n t) = Array"
| "KindOf (MapOf k t) = Map"
| "KindOf (ChanOf t) = Chan"
| "KindOf (StructOf fs) = Struct"

text \<open>\<^verbatim>\<open>t.Elem()\<close> panics unless the kind is Array, Chan, Map, Ptr or Slice.\<close>

fun Elem :: "rtype \<Rightarrow> rtype option" where
  "Elem (PtrTo t) = Some t"
| "Elem (SliceOf t) = Some t"
| "Elem (ArrayOf n t) = Some t"
| "Elem (MapOf k t) = Some t"
| "Elem (ChanOf t) = Some t"
| "Elem (Scalar k) = None"
| "Elem (StructOf fs) = None"

text \<open>\<^verbatim>\<open>t.NumField()\<close> panics unless the kind is Struct.\<close>

fun NumField :: "rtype \<Rightarrow> nat option" where
  "NumField (StructOf fs) = Some (length fs)"
| "NumField t = None"

definition isPtr :: "rtype \<Rightarrow> bool" where
  "isPtr t = (KindOf t = Ptr)"

text \<open>The predicates of type.go look through one pointer.\<close>

definition deref :: "rtype \<Rightarrow> rtype" where
  "deref t = (if isPtr t then (case Elem t of Some e \<Rightarrow> e | None \<Rightarrow> t) else t)"

definition isBool :: "rtype \<Rightarrow> bool" where
  "isBool t = (KindOf (deref t) = Bool)"

definition isStruct :: "rtype \<Rightarrow> bool" where
  "isStruct t = (KindOf (deref t) = Struct)"

definition isArray_t :: "rtype \<Rightarrow> bool" where
  "isArray_t t = (KindOf t = Slice \<or> KindOf t = Array)"

subsection \<open>The command tree\<close>

text \<open>
  A \<^verbatim>\<open>path\<close> reaches one field of one registered root: the index of the root in
  \<^verbatim>\<open>Parser.roots\<close> and the chain of field names.
\<close>

datatype path = Path (root: nat) (chain: "string list")

text \<open>
  The struct \<^verbatim>\<open>argument\<close>. Its fields \<^verbatim>\<open>env\<close>, \<^verbatim>\<open>def\<close> and \<^verbatim>\<open>help\<close> are never
  read by Eval and are left out; the mutable field \<^verbatim>\<open>isSet\<close> lives in the parser state
  below. The source handles arguments through pointers and keys its map of raw values by
  pointer; here an argument is identified by its record, which holds its binding path.
\<close>

record argument =
  path :: path
  typ_a :: rtype
  long :: string
  short :: string
  required :: bool
  positional :: bool
  isArray :: bool
  isSlice :: bool
  arrayLen :: int
  separate :: bool
  isEnum :: bool

text \<open>
  The struct \<^verbatim>\<open>command\<close>: its binding path, its name, the table of subcommands (a Go
  map, which may be nil) and its flag set.
\<close>

datatype command =
  Command (cpath: path) (cname: string) (subcmd: "(string \<times> command) list option")
    (flags: "argument list")

text \<open>
  Modelled from the spec: \<^verbatim>\<open>command.GetFlag\<close> and \<^verbatim>\<open>command.AllFlags\<close> are declared in a
  file that is not among the sources. The spec: "the name is looked up among the current
  Command's Arguments (long or short)", and the required check runs over "the final
  resolved command's own argument set".
\<close>

definition GetFlag :: "command \<Rightarrow> string \<Rightarrow> argument option" where
  "GetFlag c nm = find (\<lambda>a. long a = nm \<or> short a = nm) (flags c)"

definition AllFlags :: "command \<Rightarrow> argument list" where
  "AllFlags c = flags c"

text \<open>
  Modelled from the spec: \<^verbatim>\<open>argument.isBool\<close> is declared in the same missing file; it
  is taken to be \<^verbatim>\<open>isBool\<close> of type.go at the argument's declared type.
\<close>

definition arg_isBool :: "argument \<Rightarrow> bool" where
  "arg_isBool a = isBool (typ_a a)"

subsection \<open>The parser and what it points to\<close>

datatype OnErrorStrategy =
  OnErrorBreak | OnErrorPostRunners | OnErrorPostRunnersContinue | OnErrorContinue

text \<open>
  The fields of \<^verbatim>\<open>Parser\<close> that Eval, Execute and NewRootCommand touch, and the two
  pieces of the heap that Eval writes through pointers: the \<^verbatim>\<open>isSet\<close> flag of every
  argument (the set of the arguments whose flag is true) and the bound record
  instances (\<open>bound\<close>, of a type the caller chooses).
\<close>

record 'st parser =
  roots :: "rtype list"
  cmds :: "(string \<times> command) list"
  enums :: "(rtype \<times> (string \<times> int) list) list"
  execTree :: "path list"
  strategy :: OnErrorStrategy
  isSet :: "argument set"
  bound :: 'st

text \<open>
  The value setters of \<^verbatim>\<open>argument\<close> (\<^verbatim>\<open>setArrayValue\<close>, \<^verbatim>\<open>setValue\<close>,
  \<^verbatim>\<open>setScalarValue\<close>), the test whether the bound value implements
  \<^verbatim>\<open>encoding.TextUnmarshaler\<close> together with its \<^verbatim>\<open>UnmarshalText\<close>, and
  \<^verbatim>\<open>strings.ToLower\<close> are parameters. \<open>rangeOrder\<close> is the order in which a Go
  \<^verbatim>\<open>range\<close> visits the entries of the map of raw values, which the language leaves open.
\<close>

record 'st setters =
  rangeOrder :: "(argument \<times> string list) list \<Rightarrow> (argument \<times> string list) list"
  setArrayValue :: "argument \<Rightarrow> string list \<Rightarrow> 'st \<Rightarrow> failure + 'st"
  textUnmarshaler :: "argument \<Rightarrow> 'st \<Rightarrow> (string \<Rightarrow> 'st \<Rightarrow> failure + 'st) option"
  toLower :: "string \<Rightarrow> string"
  setValue :: "argument \<Rightarrow> int option \<Rightarrow> 'st \<Rightarrow> failure + 'st"
  setScalarValue :: "argument \<Rightarrow> string \<Rightarrow> 'st \<Rightarrow> failure + 'st"

subsection \<open>setValues\<close>

text \<open>\<^verbatim>\<open>p.enums[a.typ][key]\<close>: a missing type or label gives nil.\<close>

definition enumLookup :: "'st parser \<Rightarrow> rtype \<Rightarrow> string \<Rightarrow> int option" where
  "enumLookup p t k = (case map_of (enums p) t of None \<Rightarrow> None | Some em \<Rightarrow> map_of em k)"

text \<open>The body of the loop of \<^verbatim>\<open>setValues\<close> for one entry of the map.\<close>

definition setOne :: "'st setters \<Rightarrow> argument \<Rightarrow> string list \<Rightarrow> 'st parser \<Rightarrow> failure + 'st parser" where
  "setOne env a s p =
     (let p1 = p\<lparr>isSet := insert a (isSet p)\<rparr> in
      if length s > 1 then
        (case setArrayValue env a s (bound p1) of
           Inl f \<Rightarrow> Inl f
         | Inr st \<Rightarrow> Inr (p1\<lparr>bound := st\<rparr>))
      else
        (case idx s 0 of
           None \<Rightarrow> Inl (Panic IndexOutOfRange)
         | Some val \<Rightarrow>
             (case textUnmarshaler env a (bound p1) of
                Some unmarshalText \<Rightarrow>
                  (case unmarshalText val (bound p1) of
                     Inl f \<Rightarrow> Inl f
                   | Inr st \<Rightarrow> Inr (p1\<lparr>bound := st\<rparr>))
              | None \<Rightarrow>
                  if isEnum a then
                    (case setValue env a (enumLookup p1 (typ_a a) (toLower env val)) (bound p1) of
                       Inl f \<Rightarrow> Inl f
                     | Inr st \<Rightarrow> Inr (p1\<lparr>bound := st\<rparr>))
                  else
                    (case setScalarValue env a val (bound p1) of
                       Inl f \<Rightarrow> Inl f
                     | Inr st \<Rightarrow> Inr (p1\<lparr>bound := st\<rparr>)))))"

fun setEntries :: "'st setters \<Rightarrow> (argument \<times> string list) list \<Rightarrow> 'st parser \<Rightarrow> failure + 'st parser" where
  "setEntries env [] p = Inr p"
| "setEntries env ((a, s) # rest) p =
     (case setOne env a s p of
        Inl f \<Rightarrow> Inl f
      | Inr p' \<Rightarrow> setEntries env rest p')"

definition setValues :: "'st setters \<Rightarrow> (argument \<times> string list) list \<Rightarrow> 'st parser \<Rightarrow> failure + 'st parser" where
  "setValues env vals p = setEntries env (rangeOrder env vals) p"

subsection \<open>Eval\<close>

text \<open>
  The map \<^verbatim>\<open>values\<close> from arguments to raw strings is an association list with one
  entry for each key. \<open>valuesOf\<close> reads it (nil for a missing key), \<open>appendValue\<close> is
  \<^verbatim>\<open>values[a] = append(values[a], val)\<close>.
\<close>

type_synonym rawvalues = "(argument \<times> string list) list"

definition valuesOf :: "rawvalues \<Rightarrow> argument \<Rightarrow> string list" where
  "valuesOf vals a = (case map_of vals a of None \<Rightarrow> [] | Some s \<Rightarrow> s)"

definition appendValue :: "rawvalues \<Rightarrow> argument \<Rightarrow> string \<Rightarrow> rawvalues" where
  "appendValue vals a val = AList.update a (valuesOf vals a @ [val]) vals"

text \<open>
  The greedy capture of a fixed-length array: \<open>n\<close> counts the rounds that are left
  (\<^verbatim>\<open>a.arrayLen - j\<close>), \<open>i\<close> is the cursor of the enclosing loop.
\<close>

fun arrayCapture :: "string list \<Rightarrow> nat \<Rightarrow> nat \<Rightarrow> argument \<Rightarrow> rawvalues \<Rightarrow> failure + (nat \<times> rawvalues)" where
  "arrayCapture args 0 i a vals = Inr (i, vals)"
| "arrayCapture args (Suc n) i a vals =
     (case idx args (i + 1) of
        None \<Rightarrow> Inl (Panic IndexOutOfRange)
      | Some val \<Rightarrow>
          if isFlag val then arrayCapture args n i a vals
          else arrayCapture args n (i + 1) a (appendValue vals a val))"

text \<open>
  The greedy capture of a slice: the loop ranges over \<^verbatim>\<open>args[i+1:]\<close>, a slice taken
  once, before the first round.
\<close>

fun sliceCapture :: "string list \<Rightarrow> nat \<Rightarrow> argument \<Rightarrow> rawvalues \<Rightarrow> nat \<times> rawvalues" where
  "sliceCapture [] i a vals = (i, vals)"
| "sliceCapture (val # rest) i a vals =
     (if isFlag val then sliceCapture rest i a vals
      else sliceCapture rest (i + 1) a (appendValue vals a val))"

text \<open>
  The split of a flag token at \<^verbatim>\<open>=\<close>: the name, the inline value and
  \<^verbatim>\<open>compositeFlag\<close>. The source assigns \<^verbatim>\<open>arg = arg[:i]\<close> first and then slices the
  new \<^verbatim>\<open>arg\<close> with \<^verbatim>\<open>arg[i+1:]\<close>.
\<close>

definition splitFlag :: "string \<Rightarrow> failure + (string \<times> string \<times> bool)" where
  "splitFlag arg =
     (let i = strings_Index arg ''='' in
      if i \<noteq> - 1 then
        (case sliceTo arg i of
           None \<Rightarrow> Inl (Panic SliceBoundsOutOfRange)
         | Some arg' \<Rightarrow>
             (case sliceFrom arg' (i + 1) of
                None \<Rightarrow> Inl (Panic SliceBoundsOutOfRange)
              | Some val \<Rightarrow> Inr (arg', val, True)))
      else Inr (arg, [], False))"

text \<open>
  A flag token at the cursor \<open>i\<close>: the result is the cursor at the \<^verbatim>\<open>continue\<close> (the
  loop adds one to it) and the new map of raw values.
\<close>

definition evalFlag :: "string list \<Rightarrow> nat \<Rightarrow> command \<Rightarrow> rawvalues \<Rightarrow> string \<Rightarrow> failure + (nat \<times> rawvalues)" where
  "evalFlag args i c vals arg0 =
     (case splitFlag arg0 of
        Inl f \<Rightarrow> Inl f
      | Inr (arg, val, compositeFlag) \<Rightarrow>
          (case GetFlag c arg of
             None \<Rightarrow> Inl (Err (ErrNoSuchFlag arg))
           | Some a \<Rightarrow>
               if isArray a \<or> isSlice a then
                 (if separate a then
                    (if isArray a \<and> int (length (valuesOf vals a)) = arrayLen a
                     then Inl (Err ErrArrayOverCapacity)
                     else if val = [] then
                       (case idx args (i + 1) of
                          None \<Rightarrow> Inl (Panic IndexOutOfRange)
                        | Some v \<Rightarrow> Inr (i + 1, appendValue vals a v))
                     else Inr (i, appendValue vals a val))
                  else if isArray a then arrayCapture args (nat (arrayLen a)) i a vals
                  else Inr (sliceCapture (drop (i + 1) args) i a vals))
               else if \<not> compositeFlag then
                 (if arg_isBool a then Inr (i, AList.update a [''true''] vals)
                  else
                    (case idx args (i + 1) of
                       None \<Rightarrow> Inl (Panic IndexOutOfRange)
                     | Some v \<Rightarrow> Inr (i + 1, AList.update a [v] vals)))
               else Inr (i, AList.update a [val] vals)))"

text \<open>The local variables of Eval's loop, and the parser.\<close>

record 'st evalstate =
  cur :: command
  rawvals :: rawvalues
  positionalMode :: bool
  positionals :: "string list"
  ps :: "'st parser"

text \<open>
  One round of the loop at the cursor \<open>i\<close>; the result holds the cursor at the
  \<^verbatim>\<open>continue\<close>. The two branches of the source for \<^verbatim>\<open>-h\<close>, \<^verbatim>\<open>--help\<close> and
  \<^verbatim>\<open>--version\<close> are empty and are left out.
\<close>

definition evalToken :: "'st setters \<Rightarrow> string list \<Rightarrow> nat \<Rightarrow> 'st evalstate \<Rightarrow> failure + (nat \<times> 'st evalstate)" where
  "evalToken env args i ls =
     (case idx args i of
        None \<Rightarrow> Inl (Panic IndexOutOfRange)
      | Some arg \<Rightarrow>
          if arg = ''--'' then Inr (i, ls\<lparr>positionalMode := True\<rparr>)
          else if positionalMode ls then Inr (i, ls\<lparr>positionals := positionals ls @ [arg]\<rparr>)
          else if \<not> isFlag arg then
            (case subcmd (cur ls) of
               Some subs \<Rightarrow>
                 (case map_of subs arg of
                    None \<Rightarrow> Inl (Err (ErrCommandNotFound arg))
                  | Some cc \<Rightarrow>
                      (case setValues env (rawvals ls) (ps ls) of
                         Inl f \<Rightarrow> Inl f
                       | Inr p' \<Rightarrow>
                           Inr (i, ls\<lparr>cur := cc,
                                      ps := p'\<lparr>execTree := execTree p' @ [cpath cc]\<rparr>\<rparr>)))
             | None \<Rightarrow> Inr (i, ls\<lparr>positionals := positionals ls @ [arg]\<rparr>))
          else
            (case evalFlag args i (cur ls) (rawvals ls) arg of
               Inl f \<Rightarrow> Inl f
             | Inr (i', vals') \<Rightarrow> Inr (i', ls\<lparr>rawvals := vals'\<rparr>)))"

text \<open>
  No round moves the cursor back. The four lemmas stand here because the termination
  of the loop below rests on them.
\<close>

lemma arrayCapture_cursor:
  "arrayCapture args n i a vals = Inr (i', vals') \<Longrightarrow> i \<le> i'"
proof (induction n arbitrary: i vals)
  case 0
  then show ?case by simp
next
  case (Suc n)
  then show ?case
    by (fastforce split: option.splits if_splits)
qed

lemma sliceCapture_cursor:
  "sliceCapture rest i a vals = (i', vals') \<Longrightarrow> i \<le> i'"
proof (induction rest arbitrary: i vals)
  case Nil
  then show ?case by simp
next
  case (Cons v rest)
  then show ?case
    by (fastforce split: if_splits)
qed

lemma evalFlag_cursor:
  assumes "evalFlag args i c vals arg0 = Inr (i', vals')"
  shows "i \<le> i'"
  using assms
  by (auto simp: evalFlag_def split: sum.splits option.splits if_splits prod.splits
      dest: arrayCapture_cursor sliceCapture_cursor)

lemma evalToken_cursor:
  assumes "evalToken env args i ls = Inr (i', ls')"
  shows "i \<le> i'"
  using assms
  by (auto simp: evalToken_def split: sum.splits option.splits if_splits prod.splits
      dest: evalFlag_cursor)

text \<open>
  The loop \<^verbatim>\<open>for i := 0; i < len(args); i++\<close> of Eval, from the cursor \<open>i\<close>: every
  round ends in a \<^verbatim>\<open>continue\<close> or in the end of the body, and the loop then adds one
  to the cursor.
\<close>

function evalLoop :: "'st setters \<Rightarrow> string list \<Rightarrow> nat \<Rightarrow> 'st evalstate \<Rightarrow> failure + 'st evalstate" where
  "evalLoop env args i ls =
     (if i < length args then
        (case evalToken env args i ls of
           Inl f \<Rightarrow> Inl f
         | Inr (i', ls') \<Rightarrow> evalLoop env args (Suc i') ls')
      else Inr ls)"
  by pat_completeness auto
termination
proof (relation "measure (\<lambda>(env, args, i, ls). length args - i)")
  show "wf (measure (\<lambda>(env, args, i, ls). length args - i))"
    by simp
next
  fix env :: "'st setters" and args :: "string list" and i :: nat and ls :: "'st evalstate"
    and x2 :: "nat \<times> 'st evalstate" and i' :: nat and ls' :: "'st evalstate"
  assume "i < length args" and "evalToken env args i ls = Inr x2" and "(i', ls') = x2"
  then have "i \<le> i'"
    using evalToken_cursor [of env args i ls i' ls'] by simp
  with \<open>i < length args\<close>
  show "((env, args, Suc i', ls'), (env, args, i, ls)) \<in> measure (\<lambda>(env, args, i, ls). length args - i)"
    by simp
qed

declare evalLoop.simps [simp del]

text \<open>
  The end of Eval: the final commit, then the check of the required flags of the
  command the loop ended in.
\<close>

definition finish :: "'st setters \<Rightarrow> 'st evalstate \<Rightarrow> failure + 'st parser" where
  "finish env ls =
     (case setValues env (rawvals ls) (ps ls) of
        Inl f \<Rightarrow> Inl f
      | Inr p' \<Rightarrow>
          (case find (\<lambda>a. required a \<and> a \<notin> isSet p') (AllFlags (cur ls)) of
             Some a \<Rightarrow> Inl (Err (ErrRequiredFlagNotSet (long a)))
           | None \<Rightarrow> Inr p'))"

text \<open>The lookup of the root command: the name as it is, then its base name.\<close>

definition lookupRoot :: "'st parser \<Rightarrow> string \<Rightarrow> command option" where
  "lookupRoot p a0 =
     (case map_of (cmds p) a0 of
        Some c \<Rightarrow> Some c
      | None \<Rightarrow> map_of (cmds p) (filepath_Base a0))"

text \<open>The locals of Eval when its loop starts.\<close>

definition start :: "'st parser \<Rightarrow> command \<Rightarrow> 'st evalstate" where
  "start p c =
     \<lparr>cur = c, rawvals = [], positionalMode = False, positionals = [],
      ps = p\<lparr>execTree := execTree p @ [cpath c]\<rparr>\<rparr>"

text \<open>
  \<^verbatim>\<open>Parser.Eval\<close>. The result is the failure (an error returned or a panic), or the
  parser as Eval leaves it when it returns nil. What a failed Eval has written before
  it failed is not kept.
\<close>

definition Eval :: "'st setters \<Rightarrow> 'st parser \<Rightarrow> string list \<Rightarrow> failure + 'st parser" where
  "Eval env p args =
     (case idx args 0 of
        None \<Rightarrow> Inl (Panic IndexOutOfRange)
      | Some a0 \<Rightarrow>
          (case lookupRoot p a0 of
             None \<Rightarrow> Inl (Err (ErrCommandNotFound a0))
           | Some c \<Rightarrow>
               (case evalLoop env (drop 1 args) 0 (start p c) of
                  Inl f \<Rightarrow> Inl f
                | Inr ls \<Rightarrow> finish env ls)))"

text \<open>The locals of the loop other than the list of the positional tokens.\<close>

definition readLocals :: "'st evalstate \<Rightarrow> command \<times> rawvalues \<times> bool \<times> 'st parser" where
  "readLocals ls = (cur ls, rawvals ls, positionalMode ls, ps ls)"

subsection \<open>Execute\<close>

text \<open>
  A \<^verbatim>\<open>context.Context\<close>, as far as Execute is concerned: the value stored under
  \<^verbatim>\<open>lastErrorKey{}\<close>, if any. The errors of the hooks are strings.
\<close>

record exec_ctx =
  lastError :: "string option"

text \<open>
  A hook takes the context, may do anything to the state \<open>'u\<close> of its user, and
  returns an error or nil.
\<close>

type_synonym 'u hook = "exec_ctx \<Rightarrow> 'u \<Rightarrow> string option \<times> 'u"

text \<open>
  An element of \<^verbatim>\<open>execTree\<close>: for each of the five runner interfaces, the method when
  the type assertion succeeds.
\<close>

record 'u node =
  PersistentPostRun :: "'u hook option"
  PersistentPreRun :: "'u hook option"
  PreRun :: "'u hook option"
  Run :: "'u hook option"
  PostRun :: "'u hook option"

text \<open>The variables \<^verbatim>\<open>ctx\<close> and \<^verbatim>\<open>err\<close> of Execute, and the state of the user.\<close>

type_synonym 'u execstate = "exec_ctx \<times> string option \<times> 'u"

text \<open>
  The block that Execute repeats for PersistentPreRun, PreRun, Run and PostRun: the
  type assertion, the call that assigns \<^verbatim>\<open>err\<close>, and on an error the \<^verbatim>\<open>break\<close> (the
  result True) unless the strategy is OnErrorContinue, else the store into the context.
\<close>

definition callHook :: "OnErrorStrategy \<Rightarrow> 'u hook option \<Rightarrow> 'u execstate \<Rightarrow> bool \<times> 'u execstate" where
  "callHook s h st =
     (case st of (ctx, err, u) \<Rightarrow>
        (case h of
           None \<Rightarrow> (False, ctx, err, u)
         | Some rnr \<Rightarrow>
             (case rnr ctx u of
                (None, u') \<Rightarrow> (False, ctx, None, u')
              | (Some e, u') \<Rightarrow>
                  if s \<noteq> OnErrorContinue then (True, ctx, Some e, u')
                  else (False, ctx\<lparr>lastError := Some e\<rparr>, Some e, u'))))"

text \<open>The loop over \<^verbatim>\<open>execTree\<close>, from the index \<open>i\<close>, with the stack of post runners.\<close>

fun execLoop :: "OnErrorStrategy \<Rightarrow> int \<Rightarrow> nat \<Rightarrow> 'u node list \<Rightarrow> 'u hook list \<Rightarrow> 'u execstate \<Rightarrow> 'u hook list \<times> 'u execstate" where
  "execLoop s lastCmd i [] pPostRunners st = (pPostRunners, st)"
| "execLoop s lastCmd i (nd # rest) pPostRunners st =
     (let pp = (case PersistentPostRun nd of
                  Some rnr \<Rightarrow> rnr # pPostRunners
                | None \<Rightarrow> pPostRunners)
      in case callHook s (PersistentPreRun nd) st of
           (True, st1) \<Rightarrow> (pp, st1)
         | (False, st1) \<Rightarrow>
             if int i = lastCmd then
               (case callHook s (PreRun nd) st1 of
                  (True, st2) \<Rightarrow> (pp, st2)
                | (False, st2) \<Rightarrow>
                    (case callHook s (Run nd) st2 of
                       (True, st3) \<Rightarrow> (pp, st3)
                     | (False, st3) \<Rightarrow>
                         (case callHook s (PostRun nd) st3 of
                            (True, st4) \<Rightarrow> (pp, st4)
                          | (False, st4) \<Rightarrow> execLoop s lastCmd (Suc i) rest pp st4)))
             else execLoop s lastCmd (Suc i) rest pp st1)"

text \<open>The loop over the stack of post runners; the result is what Execute returns.\<close>

fun postLoop :: "OnErrorStrategy \<Rightarrow> 'u hook list \<Rightarrow> 'u execstate \<Rightarrow> string option \<times> 'u" where
  "postLoop s [] st = (case st of (ctx, err, u) \<Rightarrow> (err, u))"
| "postLoop s (rnr # rest) st =
     (case st of (ctx, err, u) \<Rightarrow>
        (case rnr ctx u of
           (None, u') \<Rightarrow> postLoop s rest (ctx, None, u')
         | (Some e, u') \<Rightarrow>
             if s = OnErrorPostRunners then (Some e, u')
             else postLoop s rest (ctx\<lparr>lastError := Some e\<rparr>, Some e, u')))"

text \<open>
  \<^verbatim>\<open>Parser.Execute\<close>. \<open>inst\<close> gives the record instance behind each path of the
  execution tree; the result is the error returned and the state the hooks leave.
\<close>

definition Execute :: "(path \<Rightarrow> 'u node) \<Rightarrow> 'st parser \<Rightarrow> exec_ctx \<Rightarrow> 'u \<Rightarrow> string option \<times> 'u" where
  "Execute inst p ctx u =
     (let tree = map inst (execTree p);
          lastCmd = int (length tree) - 1
      in case execLoop (strategy p) lastCmd 0 tree [] (ctx, None, u) of
           (pPostRunners, ctx', err, u') \<Rightarrow>
             if err \<noteq> None \<and> strategy p = OnErrorBreak then (err, u')
             else postLoop (strategy p) pPostRunners (ctx', err, u'))"

subsection \<open>NewRootCommand\<close>

text \<open>
  The head of \<^verbatim>\<open>walkStruct\<close>: the pointer is looked through and \<^verbatim>\<open>t.NumField()\<close>
  is read for the bound of the loop. The body of the loop over the fields needs
  \<^verbatim>\<open>parseCliTag\<close>, the naming policies and the methods of \<^verbatim>\<open>command\<close> and \<^verbatim>\<open>path\<close>,
  none of which is among the sources; it is the parameter \<open>walkFields\<close>.
\<close>

definition walkStruct :: "(command \<Rightarrow> rtype \<Rightarrow> path \<Rightarrow> panic + command) \<Rightarrow> command \<Rightarrow> rtype \<Rightarrow> path \<Rightarrow> panic + command" where
  "walkStruct walkFields c t pth =
     (case (if isPtr t then Elem t else Some t) of
        None \<Rightarrow> Inl ReflectElemOfInvalidType
      | Some t' \<Rightarrow>
          (case NumField t' of
             None \<Rightarrow> Inl ReflectNumFieldOfNonStruct
           | Some n \<Rightarrow> walkFields c t' pth))"

text \<open>
  The guard of NewRootCommand, \<^verbatim>\<open>t.Kind() != reflect.Ptr && t.Elem().Kind() !=
  reflect.Struct\<close>: the right operand is evaluated only when the left one is true, and
  \<^verbatim>\<open>t.Elem()\<close> may panic.
\<close>

definition rootGuard :: "rtype \<Rightarrow> panic + bool" where
  "rootGuard t =
     (if KindOf t \<noteq> Ptr then
        (case Elem t of
           None \<Rightarrow> Inl ReflectElemOfInvalidType
         | Some e \<Rightarrow> Inr (KindOf e \<noteq> Struct))
      else Inr False)"

text \<open>
  \<^verbatim>\<open>Parser.NewRootCommand\<close> for a root value of the type \<open>t\<close> (an untyped nil,
  which has no type, is not covered). The result is the panic, if any, and the parser
  at that moment. The command is registered in \<^verbatim>\<open>p.cmds\<close> before walkStruct fills
  it in.
\<close>

definition NewRootCommand :: "(command \<Rightarrow> rtype \<Rightarrow> path \<Rightarrow> panic + command) \<Rightarrow> 'st parser \<Rightarrow> string \<Rightarrow> rtype \<Rightarrow> panic option \<times> 'st parser" where
  "NewRootCommand walkFields p name t =
     (case rootGuard t of
        Inl pn \<Rightarrow> (Some pn, p)
      | Inr True \<Rightarrow> (Some NotPtrToStruct, p)
      | Inr False \<Rightarrow>
          (let p1 = p\<lparr>roots := roots p @ [t]\<rparr>;
               pth = Path (length (roots p1) - 1) [];
               c = Command pth name (Some []) [];
               p2 = p1\<lparr>cmds := AList.update name c (cmds p1)\<rparr>
           in case walkStruct walkFields c t pth of
                Inl pn \<Rightarrow> (Some pn, p2)
              | Inr c' \<Rightarrow> (None, p2\<lparr>cmds := AList.update name c' (cmds p2)\<rparr>)))"

subsection \<open>A command line to run the definitions on\<close>

text \<open>
  The root \<^verbatim>\<open>cmd\<close> has the string flag \<^verbatim>\<open>--flag\<close>. The root \<^verbatim>\<open>app\<close> has the string
  flag \<^verbatim>\<open>--name\<close>, the boolean flag \<^verbatim>\<open>--verbose\<close>, the greedy slice \<^verbatim>\<open>--tags\<close> and the
  subcommand \<^verbatim>\<open>serve\<close>, whose integer flag \<^verbatim>\<open>--port\<close> is required.
\<close>

definition flagArg :: argument where
  "flagArg =
     \<lparr>path = Path 0 [''Flag''], typ_a = Scalar String, long = ''--flag'', short = [],
      required = False, positional = False, isArray = False, isSlice = False, arrayLen = 0,
      separate = False, isEnum = False\<rparr>"

definition nameArg :: argument where
  "nameArg =
     \<lparr>path = Path 1 [''Name''], typ_a = Scalar String, long = ''--name'', short = ''-n'',
      required = False, positional = False, isArray = False, isSlice = False, arrayLen = 0,
      separate = False, isEnum = False\<rparr>"

definition verboseArg :: argument where
  "verboseArg =
     \<lparr>path = Path 1 [''Verbose''], typ_a = Scalar Bool, long = ''--verbose'', short = [],
      required = False, positional = False, isArray = False, isSlice = False, arrayLen = 0,
      separate = False, isEnum = False\<rparr>"

definition tagsArg :: argument where
  "tagsArg =
     \<lparr>path = Path 1 [''Tags''], typ_a = SliceOf (Scalar String), long = ''--tags'', short = [],
      required = False, positional = False, isArray = False, isSlice = True, arrayLen = - 1,
      separate = False, isEnum = False\<rparr>"

definition portArg :: argument where
  "portArg =
     \<lparr>path = Path 1 [''Serve'', ''Port''], typ_a = Scalar IntK, long = ''--port'', short = [],
      required = True, positional = False, isArray = False, isSlice = False, arrayLen = 0,
      separate = False, isEnum = False\<rparr>"

definition cmdCmd :: command where
  "cmdCmd = Command (Path 0 []) ''cmd'' (Some []) [flagArg]"

definition serveCmd :: command where
  "serveCmd = Command (Path 1 [''Serve'']) ''serve'' (Some []) [portArg]"

definition appCmd :: command where
  "appCmd =
     Command (Path 1 []) ''app'' (Some [(''serve'', serveCmd)]) [nameArg, verboseArg, tagsArg]"

text \<open>
  Setters that keep a log: the bound state is the list of the calls made, each with the
  argument and the raw strings handed over. The map of raw values is visited in the
  order of its association list.
\<close>

type_synonym setlog = "(argument \<times> string list) list"

definition logSetters :: "setlog setters" where
  "logSetters =
     \<lparr>rangeOrder = (\<lambda>vals. vals),
      setArrayValue = (\<lambda>a s st. Inr (st @ [(a, s)])),
      textUnmarshaler = (\<lambda>a st. None),
      toLower = (\<lambda>s. s),
      setValue = (\<lambda>a v st. Inr (st @ [(a, [])])),
      setScalarValue = (\<lambda>a val st. Inr (st @ [(a, [val])]))\<rparr>"

definition cli :: "setlog parser" where
  "cli =
     \<lparr>roots = [PtrTo (StructOf []), PtrTo (StructOf [])],
      cmds = [(''cmd'', cmdCmd), (''app'', appCmd)], enums = [], execTree = [],
      strategy = OnErrorBreak, isSet = {}, bound = []\<rparr>"

text \<open>
  The map of raw values only grows: \<open>grown vals vals'\<close> when every key of \<open>vals\<close> is a
  key of \<open>vals'\<close> and \<open>vals'\<close> has one entry for each key if \<open>vals\<close> has.
\<close>

definition grown :: "rawvalues \<Rightarrow> rawvalues \<Rightarrow> bool" where
  "grown vals vals' =
     (fst ` set vals \<subseteq> fst ` set vals' \<and>
      (distinct (map fst vals) \<longrightarrow> distinct (map fst vals')))"

text \<open>
  The keys of the map of raw values, and the arguments that a vector names: those
  whose long or short name is one of its tokens that look like flags.
\<close>

definition keysOf :: "rawvalues \<Rightarrow> argument set" where
  "keysOf vals = fst ` set vals"

definition namedIn :: "string list \<Rightarrow> argument set" where
  "namedIn args = {a. long a \<in> set (filter isFlag args) \<or> short a \<in> set (filter isFlag args)}"

text \<open>
  A plain prefix of an argument vector, read from the command \<open>c\<close>: names of
  subcommands, flags of boolean arguments, and flags of scalar arguments that take a
  value, each followed by its value. The result is the command the prefix leads to.
  This describes a shape of the input; it is not part of the source.
\<close>

fun plainPrefix :: "command \<Rightarrow> string list \<Rightarrow> command option" where
  "plainPrefix c [] = Some c"
| "plainPrefix c (t # ts) =
     (if t = ''--'' then None
      else if \<not> isFlag t then
        (case subcmd c of
           None \<Rightarrow> None
         | Some subs \<Rightarrow>
             (case map_of subs t of
                None \<Rightarrow> None
              | Some cc \<Rightarrow> plainPrefix cc ts))
      else if CHR ''='' \<in> set t then None
      else
        (case GetFlag c t of
           None \<Rightarrow> None
         | Some a \<Rightarrow>
             if isArray a \<or> isSlice a then None
             else if arg_isBool a then plainPrefix c ts
             else (case ts of [] \<Rightarrow> None | v # ts' \<Rightarrow> plainPrefix c ts')))"

text \<open>
  A second command line. The root \<^verbatim>\<open>account\<close> has the boolean flag \<^verbatim>\<open>--debug\<close>, the
  greedy slice \<^verbatim>\<open>--labels\<close>, the required boolean flag \<^verbatim>\<open>--force\<close>, the string flag
  \<^verbatim>\<open>--owner\<close> and the subcommand \<^verbatim>\<open>login\<close>, whose string flag \<^verbatim>\<open>--user\<close> is required.
\<close>

definition debugArg :: argument where
  "debugArg =
     \<lparr>path = Path 0 [''Debug''], typ_a = Scalar Bool, long = ''--debug'', short = [],
      required = False, positional = False, isArray = False, isSlice = False, arrayLen = 0,
      separate = False, isEnum = False\<rparr>"

definition labelsArg :: argument where
  "labelsArg =
     \<lparr>path = Path 0 [''Labels''], typ_a = SliceOf (Scalar String), long = ''--labels'',
      short = [], required = False, positional = False, isArray = False, isSlice = True,
      arrayLen = - 1, separate = False, isEnum = False\<rparr>"

definition forceArg :: argument where
  "forceArg =
     \<lparr>path = Path 0 [''Force''], typ_a = Scalar Bool, long = ''--force'', short = [],
      required = True, positional = False, isArray = False, isSlice = False, arrayLen = 0,
      separate = False, isEnum = False\<rparr>"

definition ownerArg :: argument where
  "ownerArg =
     \<lparr>path = Path 0 [''Owner''], typ_a = Scalar String, long = ''--owner'', short = [],
      required = False, positional = False, isArray = False, isSlice = False, arrayLen = 0,
      separate = False, isEnum = False\<rparr>"

definition userArg :: argument where
  "userArg =
     \<lparr>path = Path 0 [''Login'', ''User''], typ_a = Scalar String, long = ''--user'',
      short = ''-u'', required = True, positional = False, isArray = False, isSlice = False,
      arrayLen = 0, separate = False, isEnum = False\<rparr>"

definition loginCmd :: command where
  "loginCmd = Command (Path 0 [''Login'']) ''login'' (Some []) [userArg]"

definition accountCmd :: command where
  "accountCmd =
     Command (Path 0 []) ''account'' (Some [(''login'', loginCmd)])
       [debugArg, labelsArg, forceArg, ownerArg]"

definition accounts :: "setlog parser" where
  "accounts =
     \<lparr>roots = [PtrTo (StructOf [])], cmds = [(''account'', accountCmd)], enums = [],
      execTree = [], strategy = OnErrorBreak, isSet = {}, bound = []\<rparr>"

text \<open>
  Hooks that keep a log: the state of the user is the list of the hooks called, each
  with the error it found in the context. \<open>failingNode\<close> has a persistent post hook
  that succeeds and a main run hook that fails.
\<close>

type_synonym hooklog = "(string \<times> string option) list"

definition logHook :: "string \<Rightarrow> string option \<Rightarrow> hooklog hook" where
  "logHook nm res = (\<lambda>ctx u. (res, u @ [(nm, lastError ctx)]))"

definition failingNode :: "hooklog node" where
  "failingNode =
     \<lparr>PersistentPostRun = Some (logHook ''PersistentPostRun'' None),
      PersistentPreRun = None, PreRun = None,
      Run = Some (logHook ''Run'' (Some ''run failed'')),
      PostRun = None\<rparr>"

section \<open>Properties\<close>

subsection \<open>Unfolding the loop\<close>

lemma evalLoop_step:
  "i < length args \<Longrightarrow>
   evalLoop env args i ls =
     (case evalToken env args i ls of
        Inl f \<Rightarrow> Inl f
      | Inr (i', ls') \<Rightarrow> evalLoop env args (Suc i') ls')"
  by (subst evalLoop.simps) simp

lemma evalLoop_end:
  "\<not> i < length args \<Longrightarrow> evalLoop env args i ls = Inr ls"
  by (subst evalLoop.simps) simp

subsection \<open>Inline values\<close>

lemma indexFrom_found:
  "c \<in> set s \<Longrightarrow> indexFrom s [c] k \<noteq> - 1"
proof (induction s arbitrary: k)
  case Nil
  then show ?case by simp
next
  case (Cons x xs)
  then show ?case by auto
qed

lemma splitFlag_inline:
  assumes "strings_Index arg ''='' \<noteq> - 1"
  shows "splitFlag arg = Inl (Panic SliceBoundsOutOfRange)"
  using assms
  by (auto simp: splitFlag_def sliceTo_def sliceFrom_def Let_def split: option.splits)

text \<open>
  C1. The spec has a flag token with \<^verbatim>\<open>=\<close> split into the name before the first
  \<^verbatim>\<open>=\<close> and the inline value after it, and the value assigned to the argument. The
  code cuts \<^verbatim>\<open>arg\<close> down to the name first and then slices the name, not the token,
  from the position after the \<^verbatim>\<open>=\<close>, which lies beyond its end: for every registered
  root and every flag token that holds a \<^verbatim>\<open>=\<close>, Eval panics with "slice bounds out of
  range" when it reaches the token, whether the flag is known or not, and no value is
  assigned.
\<close>

theorem inline_value_panics:
  assumes "lookupRoot p cmd = Some c" and "isFlag tok" and "CHR ''='' \<in> set tok"
  shows "Eval env p (cmd # tok # rest) = Inl (Panic SliceBoundsOutOfRange)"
proof -
  have ne: "tok \<noteq> ''--''"
    using assms(3) by auto
  have "strings_Index tok ''='' \<noteq> - 1"
    using assms(3) by (simp add: strings_Index_def indexFrom_found)
  then have sp: "splitFlag tok = Inl (Panic SliceBoundsOutOfRange)"
    by (rule splitFlag_inline)
  have tk: "evalToken env (tok # rest) 0 (start p c) = Inl (Panic SliceBoundsOutOfRange)"
    using ne assms(2) sp by (simp add: evalToken_def idx_def start_def evalFlag_def)
  have "evalLoop env (tok # rest) 0 (start p c) = Inl (Panic SliceBoundsOutOfRange)"
    by (simp add: evalLoop_step tk)
  then show ?thesis
    using assms(1) by (simp add: Eval_def idx_def)
qed

theorem inline_value_panics_witness:
  "lookupRoot cli ''cmd'' = Some cmdCmd \<and> isFlag ''--flag=value'' \<and>
   CHR ''='' \<in> set ''--flag=value'' \<and>
   Eval logSetters cli [''cmd'', ''--flag=value''] = Inl (Panic SliceBoundsOutOfRange)"
proof -
  have r: "lookupRoot cli ''cmd'' = Some cmdCmd"
    by (simp add: lookupRoot_def cli_def)
  have f: "isFlag ''--flag=value''"
    by (simp add: isFlag_def strings_HasPrefix_def strings_TrimLeft_def)
  have e: "CHR ''='' \<in> set ''--flag=value''"
    by simp
  show ?thesis
    using r f e inline_value_panics [OF r f e, of logSetters "[]"] by simp
qed

subsection \<open>Flags without an inline value\<close>

lemma indexFrom_absent:
  "c \<notin> set s \<Longrightarrow> indexFrom s [c] k = - 1"
  by (induction s arbitrary: k) auto

lemma splitFlag_plain:
  assumes "CHR ''='' \<notin> set tok"
  shows "splitFlag tok = Inr (tok, [], False)"
  using assms by (simp add: splitFlag_def strings_Index_def indexFrom_absent)

lemma isFlag_not_terminator:
  "isFlag tok \<Longrightarrow> tok \<noteq> ''--''"
  by (auto simp: isFlag_def strings_HasPrefix_def strings_TrimLeft_def)

text \<open>
  C4. The spec lists "value missing for flag at end of input" among the errors that
  Eval returns. The code reads \<^verbatim>\<open>args[i+1]\<close> with no check: when the loop stands on
  the last token, not in positional mode, and the token is the flag of an argument that
  is neither boolean nor an array nor a slice, with no inline value, Eval does not
  return an error, it panics with "index out of range".
\<close>

theorem value_missing_panics:
  assumes "Suc i = length args" and "args ! i = tok"
    and "\<not> positionalMode ls" and "isFlag tok" and "CHR ''='' \<notin> set tok"
    and "GetFlag (cur ls) tok = Some a"
    and "\<not> isArray a" and "\<not> isSlice a" and "\<not> arg_isBool a"
  shows "evalLoop env args i ls = Inl (Panic IndexOutOfRange)"
proof -
  have lt: "i < length args"
    using assms(1) by simp
  have fl: "evalFlag args i (cur ls) (rawvals ls) tok = Inl (Panic IndexOutOfRange)"
    using assms by (simp add: evalFlag_def splitFlag_plain idx_def)
  have "evalToken env args i ls = Inl (Panic IndexOutOfRange)"
    using lt assms(2,3,4) isFlag_not_terminator [OF assms(4)] fl
    by (simp add: evalToken_def idx_def)
  then show ?thesis
    using lt by (simp add: evalLoop_step)
qed

theorem value_missing_panics_witness:
  "Eval logSetters cli [''app'', ''--name''] = Inl (Panic IndexOutOfRange)"
proof -
  have "evalLoop logSetters [''--name''] 0 (start cli appCmd) = Inl (Panic IndexOutOfRange)"
    by (rule value_missing_panics [where tok = "''--name''" and a = nameArg])
       (simp_all add: start_def isFlag_def strings_HasPrefix_def strings_TrimLeft_def
          GetFlag_def appCmd_def nameArg_def arg_isBool_def isBool_def deref_def isPtr_def)
  then show ?thesis
    by (simp add: Eval_def idx_def lookupRoot_def cli_def filepath_Base_def)
qed

subsection \<open>The invocation name\<close>

text \<open>
  C10. Eval reads \<^verbatim>\<open>args[0]\<close> without a check: on the empty vector it does not
  return an error, it panics on the index. On a vector whose first token is no
  registered root, neither as it stands nor by its base name, Eval returns the error
  "command not found" for that token.
\<close>

theorem first_token:
  "Eval env p [] = Inl (Panic IndexOutOfRange) \<and>
   (map_of (cmds p) a0 = None \<and> map_of (cmds p) (filepath_Base a0) = None \<longrightarrow>
      Eval env p (a0 # rest) = Inl (Err (ErrCommandNotFound a0)))"
  by (simp add: Eval_def idx_def lookupRoot_def)

theorem first_token_witness:
  "Eval logSetters cli [] = Inl (Panic IndexOutOfRange) \<and>
   map_of (cmds cli) ''/bin/ls'' = None \<and> map_of (cmds cli) (filepath_Base ''/bin/ls'') = None \<and>
   Eval logSetters cli [''/bin/ls'', ''--flag''] = Inl (Err (ErrCommandNotFound ''/bin/ls''))"
  using first_token [of logSetters cli "''/bin/ls''" "[''--flag'']"]
  by (simp add: cli_def filepath_Base_def)

subsection \<open>Greedy capture\<close>

lemma valuesOf_appendValue:
  "valuesOf (appendValue vals a v) a = valuesOf vals a @ [v]"
  by (simp add: valuesOf_def appendValue_def update_conv')

text \<open>
  The greedy capture of a slice takes every later token that does not look like a
  flag, wherever it stands, and moves the cursor by the number of the tokens taken.
\<close>

lemma sliceCapture_all:
  "fst (sliceCapture rest i a vals) = i + length (filter (\<lambda>v. \<not> isFlag v) rest) \<and>
   valuesOf (snd (sliceCapture rest i a vals)) a =
     valuesOf vals a @ filter (\<lambda>v. \<not> isFlag v) rest"
  by (induction rest arbitrary: i vals) (simp_all add: valuesOf_appendValue)

text \<open>
  C3. The spec has the greedy capture stop at the first token that looks like a flag
  and leave that token to be processed as a flag. The loop of the code goes on with
  \<^verbatim>\<open>continue\<close> where it meets such a token: on \<^verbatim>\<open>--tags a --name x\<close> the capture for
  \<^verbatim>\<open>--tags\<close> takes \<^verbatim>\<open>a\<close> and \<^verbatim>\<open>x\<close> and leaves the cursor two tokens on, so that the
  loop resumes at \<^verbatim>\<open>x\<close>: the flag \<^verbatim>\<open>--name\<close> is never looked up, and \<^verbatim>\<open>x\<close>, already
  taken as a value, is read again as a subcommand name, which fails.
\<close>

theorem greedy_slice_passes_flags:
  "evalFlag [''--tags'', ''a'', ''--name'', ''x''] 0 appCmd [] ''--tags'' =
     Inr (2, [(tagsArg, [''a'', ''x''])]) \<and>
   Eval logSetters cli [''app'', ''--tags'', ''a'', ''--name'', ''x''] =
     Inl (Err (ErrCommandNotFound ''x''))"
proof (rule conjI)
  show "evalFlag [''--tags'', ''a'', ''--name'', ''x''] 0 appCmd [] ''--tags'' =
      Inr (2, [(tagsArg, [''a'', ''x''])])"
    by (simp add: evalFlag_def splitFlag_def strings_Index_def GetFlag_def appCmd_def
        tagsArg_def nameArg_def verboseArg_def isFlag_def strings_HasPrefix_def
        strings_TrimLeft_def appendValue_def valuesOf_def)
next
  show "Eval logSetters cli [''app'', ''--tags'', ''a'', ''--name'', ''x''] =
      Inl (Err (ErrCommandNotFound ''x''))"
    by (simp add: Eval_def idx_def lookupRoot_def cli_def filepath_Base_def start_def
        evalLoop.simps evalToken_def evalFlag_def splitFlag_def strings_Index_def GetFlag_def
        appCmd_def tagsArg_def nameArg_def verboseArg_def isFlag_def strings_HasPrefix_def
        strings_TrimLeft_def appendValue_def valuesOf_def)
qed

subsection \<open>The guard of NewRootCommand\<close>

text \<open>
  Whatever the type of the root value, NewRootCommand panics unless it is a pointer to
  a struct.
\<close>

lemma NumField_None:
  "(\<forall>fs. t \<noteq> StructOf fs) \<Longrightarrow> NumField t = None"
  by (cases t) auto

lemma NewRootCommand_panics:
  assumes "\<not> (\<exists>fs. t = PtrTo (StructOf fs))"
  shows "fst (NewRootCommand walkFields p name t) \<noteq> None"
  using assms
  by (cases t)
     (auto simp: NewRootCommand_def rootGuard_def walkStruct_def isPtr_def Let_def NumField_None
        split: option.splits sum.splits bool.splits)

text \<open>
  C8. The spec has NewRootCommand panic on a root that is no pointer to a struct
  before any schema is built. The guard joins its two tests with \<^verbatim>\<open>&&\<close>, so it lets
  every pointer pass: for a pointer to a type without fields (such as \<^verbatim>\<open>*int\<close>) the
  root is appended to \<^verbatim>\<open>p.roots\<close>, the command is registered under its name in
  \<^verbatim>\<open>p.cmds\<close>, and the panic comes only then, from reflect inside walkStruct, not with
  "not ptr to struct".
\<close>

theorem root_guard_lets_pointers_pass:
  assumes "NumField t = None"
  shows "NewRootCommand walkFields p name (PtrTo t) =
     (Some ReflectNumFieldOfNonStruct,
      p\<lparr>roots := roots p @ [PtrTo t],
        cmds := AList.update name (Command (Path (length (roots p)) []) name (Some []) [])
                  (cmds p)\<rparr>)"
  using assms
  by (simp add: NewRootCommand_def rootGuard_def walkStruct_def isPtr_def Let_def)

theorem root_guard_lets_pointers_pass_witness:
  "NumField (Scalar IntK) = None \<and>
   NewRootCommand (\<lambda>c t pth. Inr c) cli ''bad'' (PtrTo (Scalar IntK)) =
     (Some ReflectNumFieldOfNonStruct,
      cli\<lparr>roots := [PtrTo (StructOf []), PtrTo (StructOf []), PtrTo (Scalar IntK)],
          cmds := [(''cmd'', cmdCmd), (''app'', appCmd),
                   (''bad'', Command (Path 2 []) ''bad'' (Some []) [])]\<rparr>)"
  using root_guard_lets_pointers_pass [of "Scalar IntK" "\<lambda>c t pth. Inr c" cli "''bad''"]
  by (simp add: cli_def)

subsection \<open>The context of the persistent post hooks\<close>

text \<open>
  On an execution tree of one node whose main run hook fails: under OnErrorBreak
  Execute returns that error and calls no hook after it; under OnErrorContinue the
  persistent post hook is called with the error stored in the context. Under
  OnErrorPostRunners the first persistent post hook that fails ends the loop over the
  stack, and its error is returned.
\<close>

lemma break_skips_post_hooks:
  assumes "strategy p = OnErrorBreak"
    and "execTree p = [pth]"
    and "PersistentPreRun (inst pth) = None" and "PreRun (inst pth) = None"
    and "Run (inst pth) = Some run" and "run ctx u = (Some e, u1)"
  shows "Execute inst p ctx u = (Some e, u1)"
  using assms
  by (auto simp: Execute_def callHook_def Let_def split: option.splits)

lemma continue_stores_run_error:
  assumes "strategy p = OnErrorContinue"
    and "execTree p = [pth]"
    and "PersistentPreRun (inst pth) = None" and "PreRun (inst pth) = None"
    and "Run (inst pth) = Some run" and "run ctx u = (Some e, u1)"
    and "PostRun (inst pth) = None"
    and "PersistentPostRun (inst pth) = Some post"
  shows "Execute inst p ctx u = post (ctx\<lparr>lastError := Some e\<rparr>) u1"
  using assms
  by (cases "post (ctx\<lparr>lastError := Some e\<rparr>) u1"; cases "fst (post (ctx\<lparr>lastError := Some e\<rparr>) u1)")
     (auto simp: Execute_def callHook_def Let_def)

lemma post_runners_stop:
  assumes "post ctx u = (Some e, u1)"
  shows "postLoop OnErrorPostRunners (post # rest) (ctx, err, u) = (Some e, u1)"
  using assms by simp

text \<open>
  C7. The spec has the persistent post hooks run, under the strategies that go on
  after an error, with the most recent error stored in the context. The code stores
  an error of the main loop only under OnErrorContinue; under OnErrorPostRunners and
  OnErrorPostRunnersContinue it leaves the loop first. For an execution tree of one
  node whose main run hook fails, under either of these two strategies, the persistent
  post hook is called with the context Execute was given, and what Execute returns is
  what that hook returns: the error of the main run hook is neither in the context nor
  returned.
\<close>

theorem run_error_not_in_context:
  assumes "strategy p = OnErrorPostRunners \<or> strategy p = OnErrorPostRunnersContinue"
    and "execTree p = [pth]"
    and "PersistentPreRun (inst pth) = None" and "PreRun (inst pth) = None"
    and "Run (inst pth) = Some run" and "run ctx u = (Some e, u1)"
    and "PersistentPostRun (inst pth) = Some post"
  shows "Execute inst p ctx u = post ctx u1"
  using assms
  by (cases "post ctx u1"; cases "fst (post ctx u1)")
     (auto simp: Execute_def callHook_def Let_def)

theorem run_error_not_in_context_witness:
  "Execute (\<lambda>pth. failingNode)
     (cli\<lparr>strategy := OnErrorPostRunners, execTree := [Path 1 []]\<rparr>)
     \<lparr>lastError = None\<rparr> [] =
   (None, [(''Run'', None), (''PersistentPostRun'', None)])"
  using run_error_not_in_context
    [of "cli\<lparr>strategy := OnErrorPostRunners, execTree := [Path 1 []]\<rparr>" "Path 1 []"
      "\<lambda>pth. failingNode" "logHook ''Run'' (Some ''run failed'')" "\<lparr>lastError = None\<rparr>" "[]"
      "''run failed''" "[(''Run'', None)]" "logHook ''PersistentPostRun'' None"]
  by (simp add: failingNode_def logHook_def)

subsection \<open>After the terminator\<close>

lemma positional_loop:
  assumes "positionalMode ls"
  shows "evalLoop env args i ls =
     Inr (ls\<lparr>positionals := positionals ls @ filter (\<lambda>t. t \<noteq> ''--'') (drop i args)\<rparr>)"
  using assms
proof (induction "length args - i" arbitrary: i ls rule: less_induct)
  case less
  show ?case
  proof (cases "i < length args")
    case False
    then show ?thesis by (simp add: evalLoop_end)
  next
    case True
    then have dr: "drop i args = args ! i # drop (Suc i) args"
      by (simp add: Cons_nth_drop_Suc)
    show ?thesis
    proof (cases "args ! i = ''--''")
      case t: True
      have same: "ls\<lparr>positionalMode := True\<rparr> = ls"
        using less.prems by simp
      have tk: "evalToken env args i ls = Inr (i, ls)"
        using True t same by (simp add: evalToken_def idx_def)
      have "evalLoop env args (Suc i) ls =
          Inr (ls\<lparr>positionals :=
                    positionals ls @ filter (\<lambda>t. t \<noteq> ''--'') (drop (Suc i) args)\<rparr>)"
        using less.hyps [of "Suc i" ls] True less.prems by simp
      then show ?thesis
        using True tk t dr by (simp add: evalLoop_step)
    next
      case f: False
      let ?ls' = "ls\<lparr>positionals := positionals ls @ [args ! i]\<rparr>"
      have tk: "evalToken env args i ls = Inr (i, ?ls')"
        using True f less.prems by (simp add: evalToken_def idx_def)
      have "evalLoop env args (Suc i) ?ls' =
          Inr (?ls'\<lparr>positionals :=
                     positionals ?ls' @ filter (\<lambda>t. t \<noteq> ''--'') (drop (Suc i) args)\<rparr>)"
        using less.hyps [of "Suc i" ?ls'] True less.prems by simp
      then show ?thesis
        using True tk f dr by (simp add: evalLoop_step)
    qed
  qed
qed

text \<open>
  C6, as the spec has it, fails: a \<^verbatim>\<open>--\<close> that follows a flag waiting for its value is
  taken as that value, and the tokens after it are read as flags and subcommands.
\<close>

theorem terminator_taken_as_value:
  "Eval logSetters cli [''app'', ''--name'', ''--'', ''--x''] = Inl (Err (ErrNoSuchFlag ''--x''))"
  by (simp add: Eval_def idx_def lookupRoot_def cli_def filepath_Base_def start_def
      evalLoop.simps evalToken_def evalFlag_def splitFlag_def strings_Index_def GetFlag_def
      appCmd_def tagsArg_def nameArg_def verboseArg_def isFlag_def strings_HasPrefix_def
      strings_TrimLeft_def appendValue_def valuesOf_def arg_isBool_def isBool_def deref_def
      isPtr_def)

text \<open>
  C6, amended. Once the loop of Eval stands on a bare \<^verbatim>\<open>--\<close> (one that no flag before
  it has taken as its value), it runs to the end of the vector without a failure:
  every later token other than a further \<^verbatim>\<open>--\<close> is appended to the positional tokens,
  whether it looks like a flag or names a subcommand, and the command, the raw values
  and the parser stay as they were.
\<close>

theorem after_terminator:
  assumes "i < length args" and "args ! i = ''--''"
  shows "evalLoop env args i ls =
     Inr (ls\<lparr>positionalMode := True,
             positionals := positionals ls @ filter (\<lambda>t. t \<noteq> ''--'') (drop (Suc i) args)\<rparr>)"
proof -
  have "evalToken env args i ls = Inr (i, ls\<lparr>positionalMode := True\<rparr>)"
    using assms by (simp add: evalToken_def idx_def)
  then show ?thesis
    using assms(1) positional_loop [of "ls\<lparr>positionalMode := True\<rparr>" env args "Suc i"]
    by (simp add: evalLoop_step)
qed

theorem after_terminator_witness:
  "evalLoop logSetters [''--name'', ''x'', ''--'', ''--port'', ''serve'', ''--'', ''-v''] 2
     (start cli appCmd\<lparr>rawvals := [(nameArg, [''x''])]\<rparr>) =
   Inr (start cli appCmd\<lparr>rawvals := [(nameArg, [''x''])], positionalMode := True,
          positionals := [''--port'', ''serve'', ''-v'']\<rparr>)"
  using after_terminator
    [of 2 "[''--name'', ''x'', ''--'', ''--port'', ''serve'', ''--'', ''-v'']" logSetters
      "start cli appCmd\<lparr>rawvals := [(nameArg, [''x''])]\<rparr>"]
  by (simp add: start_def)

subsection \<open>The positional tokens\<close>

lemma evalToken_readLocals:
  assumes "readLocals ls1 = readLocals ls2"
  shows "map_sum id (\<lambda>(i', l). (i', readLocals l)) (evalToken env args i ls1) =
         map_sum id (\<lambda>(i', l). (i', readLocals l)) (evalToken env args i ls2)"
  using assms
  by (auto simp: evalToken_def readLocals_def split: option.splits sum.splits)

lemma evalLoop_readLocals:
  assumes "readLocals ls1 = readLocals ls2"
  shows "map_sum id readLocals (evalLoop env args i ls1) =
         map_sum id readLocals (evalLoop env args i ls2)"
  using assms
proof (induction "length args - i" arbitrary: i ls1 ls2 rule: less_induct)
  case less
  show ?case
  proof (cases "i < length args")
    case False
    then show ?thesis using less.prems by (simp add: evalLoop_end)
  next
    case True
    note tk = evalToken_readLocals [OF less.prems, of env args i]
    show ?thesis
    proof (cases "evalToken env args i ls1")
      case (Inl f)
      then have "evalToken env args i ls2 = Inl f"
        using tk by (cases "evalToken env args i ls2") auto
      then show ?thesis using True Inl by (simp add: evalLoop_step)
    next
      case (Inr r)
      obtain i1 l1 where r: "r = (i1, l1)" by (cases r)
      from Inr r tk obtain l2 where
        t2: "evalToken env args i ls2 = Inr (i1, l2)" and eq: "readLocals l1 = readLocals l2"
        by (cases "evalToken env args i ls2") auto
      have "i \<le> i1"
        using Inr r evalToken_cursor by blast
      then have "length args - Suc i1 < length args - i"
        using True by simp
      then have "map_sum id readLocals (evalLoop env args (Suc i1) l1) =
          map_sum id readLocals (evalLoop env args (Suc i1) l2)"
        using less.hyps eq by blast
      then show ?thesis
        using True Inr r t2 by (simp add: evalLoop_step)
    qed
  qed
qed

text \<open>
  C9. The list of the positional tokens is written and never read. Whatever it holds,
  the loop of Eval ends in the same failure or with the same command, raw values, mode
  and parser, and the end of Eval returns the same. A token that is classified as
  positional (any token but \<^verbatim>\<open>--\<close> in positional mode, or a token that does not look
  like a flag when the command has no table of subcommands) is appended to that list
  and changes nothing else: no bound field is written and no argument is marked as set.
\<close>

theorem positionals_never_read:
  "map_sum id readLocals (evalLoop env args i (ls\<lparr>positionals := q\<rparr>)) =
     map_sum id readLocals (evalLoop env args i ls) \<and>
   finish env (ls\<lparr>positionals := q\<rparr>) = finish env ls \<and>
   (idx args i = Some arg \<and> arg \<noteq> ''--'' \<and>
    (positionalMode ls \<or> (\<not> isFlag arg \<and> subcmd (cur ls) = None)) \<longrightarrow>
      evalToken env args i ls = Inr (i, ls\<lparr>positionals := positionals ls @ [arg]\<rparr>))"
proof (intro conjI impI)
  show "map_sum id readLocals (evalLoop env args i (ls\<lparr>positionals := q\<rparr>)) =
     map_sum id readLocals (evalLoop env args i ls)"
    by (rule evalLoop_readLocals) (simp add: readLocals_def)
next
  show "finish env (ls\<lparr>positionals := q\<rparr>) = finish env ls"
    by (simp add: finish_def split: sum.splits)
next
  assume "idx args i = Some arg \<and> arg \<noteq> ''--'' \<and>
    (positionalMode ls \<or> (\<not> isFlag arg \<and> subcmd (cur ls) = None))"
  then show "evalToken env args i ls = Inr (i, ls\<lparr>positionals := positionals ls @ [arg]\<rparr>)"
    by (auto simp: evalToken_def)
qed

theorem positionals_never_read_witness:
  "idx [''--'', ''-x''] 1 = Some ''-x'' \<and> ''-x'' \<noteq> ''--'' \<and>
   positionalMode (start cli appCmd\<lparr>positionalMode := True\<rparr>) \<and>
   evalToken logSetters [''--'', ''-x''] 1 (start cli appCmd\<lparr>positionalMode := True\<rparr>) =
     Inr (1, start cli appCmd\<lparr>positionalMode := True, positionals := [''-x'']\<rparr>) \<and>
   map_sum id readLocals
     (evalLoop logSetters [''--'', ''-x''] 1
        (start cli appCmd\<lparr>positionalMode := True, positionals := [''junk'']\<rparr>)) =
   map_sum id readLocals
     (evalLoop logSetters [''--'', ''-x''] 1 (start cli appCmd\<lparr>positionalMode := True\<rparr>))"
  using positionals_never_read
    [where env = logSetters and args = "[''--'', ''-x'']" and i = 1
      and ls = "start cli appCmd\<lparr>positionalMode := True\<rparr>" and q = "[''junk'']"
      and arg = "''-x''"]
  by (simp add: idx_def start_def)

subsection \<open>What the rounds of the loop and a commit do to the parser\<close>

lemma evalLoop_invariant:
  assumes step: "\<And>i ls i' ls'. P ls \<Longrightarrow> i < length args \<Longrightarrow>
      evalToken env args i ls = Inr (i', ls') \<Longrightarrow> P ls'"
    and "P ls" and "evalLoop env args i ls = Inr lsF"
  shows "P lsF"
  using assms(2,3)
proof (induction "length args - i" arbitrary: i ls rule: less_induct)
  case less
  show ?case
  proof (cases "i < length args")
    case False
    then show ?thesis using less.prems by (simp add: evalLoop_end)
  next
    case True
    from less.prems(2) True obtain i1 l1 where
      tk: "evalToken env args i ls = Inr (i1, l1)" and rest: "evalLoop env args (Suc i1) l1 = Inr lsF"
      by (auto simp: evalLoop_step split: sum.splits)
    have "P l1"
      using step less.prems(1) True tk by blast
    moreover have "length args - Suc i1 < length args - i"
      using evalToken_cursor [OF tk] True by simp
    ultimately show ?thesis
      using less.hyps rest by blast
  qed
qed

lemma setOne_effect:
  assumes "setOne env a s p = Inr p'"
  shows "isSet p' = insert a (isSet p) \<and> execTree p' = execTree p"
  using assms
  by (auto simp: setOne_def Let_def split: if_splits sum.splits option.splits)

lemma setEntries_effect:
  assumes "setEntries env es p = Inr p'"
  shows "isSet p' = isSet p \<union> fst ` set es \<and> execTree p' = execTree p"
  using assms
proof (induction es arbitrary: p)
  case Nil
  then show ?case by simp
next
  case (Cons e es)
  obtain a s where e: "e = (a, s)" by (cases e)
  from Cons.prems e obtain p1 where
    one: "setOne env a s p = Inr p1" and rest: "setEntries env es p1 = Inr p'"
    by (auto split: sum.splits)
  show ?case
    using setOne_effect [OF one] Cons.IH [OF rest] e by auto
qed

lemma setValues_effect:
  assumes "setValues env vals p = Inr p'" and "mset (rangeOrder env vals) = mset vals"
  shows "isSet p' = isSet p \<union> fst ` set vals \<and> execTree p' = execTree p"
proof -
  have "set (rangeOrder env vals) = set vals"
    using assms(2) by (rule mset_eq_setD)
  then show ?thesis
    using setEntries_effect [of env "rangeOrder env vals" p p'] assms(1)
    by (simp add: setValues_def)
qed

lemma grown_refl: "grown vals vals"
  by (simp add: grown_def)

lemma grown_trans: "grown a b \<Longrightarrow> grown b c \<Longrightarrow> grown a c"
  by (auto simp: grown_def)

lemma grown_update: "grown vals (AList.update a s vals)"
  by (auto simp: grown_def dom_update distinct_update)

lemma grown_appendValue: "grown vals (appendValue vals a v)"
  by (simp add: appendValue_def grown_update)

lemma arrayCapture_grown:
  "arrayCapture args n i a vals = Inr (i', vals') \<Longrightarrow> grown vals vals'"
proof (induction n arbitrary: i vals)
  case 0
  then show ?case by (simp add: grown_refl)
next
  case (Suc n)
  from Suc.prems obtain v where v: "idx args (i + 1) = Some v"
    by (auto split: option.splits)
  show ?case
  proof (cases "isFlag v")
    case True
    then show ?thesis using Suc.prems v Suc.IH by simp
  next
    case False
    then have "arrayCapture args n (i + 1) a (appendValue vals a v) = Inr (i', vals')"
      using Suc.prems v by simp
    then have "grown (appendValue vals a v) vals'"
      by (rule Suc.IH)
    then show ?thesis
      using grown_appendValue grown_trans by blast
  qed
qed

lemma sliceCapture_grown:
  "sliceCapture rest i a vals = (i', vals') \<Longrightarrow> grown vals vals'"
proof (induction rest arbitrary: i vals)
  case Nil
  then show ?case by (simp add: grown_refl)
next
  case (Cons v rest)
  show ?case
  proof (cases "isFlag v")
    case True
    then show ?thesis using Cons.prems Cons.IH by simp
  next
    case False
    then have "sliceCapture rest (i + 1) a (appendValue vals a v) = (i', vals')"
      using Cons.prems by simp
    then have "grown (appendValue vals a v) vals'"
      by (rule Cons.IH)
    then show ?thesis
      using grown_appendValue grown_trans by blast
  qed
qed

lemma evalFlag_grown:
  assumes "evalFlag args i c vals arg0 = Inr (i', vals')"
  shows "grown vals vals'"
  using assms
  by (auto simp: evalFlag_def grown_appendValue grown_update
      split: sum.splits option.splits if_splits prod.splits
      dest: arrayCapture_grown sliceCapture_grown)

text \<open>
  A round of the loop either leaves the parser as it is and lets the raw values grow,
  or it is a subcommand transition: it commits all the raw values gathered so far,
  appends the subcommand to the execution tree, and keeps the raw values.
\<close>

lemma evalToken_cases:
  assumes "evalToken env args i ls = Inr (i', ls')"
  shows "(ps ls' = ps ls \<and> grown (rawvals ls) (rawvals ls')) \<or>
         (\<exists>p' cc. setValues env (rawvals ls) (ps ls) = Inr p' \<and>
                  ps ls' = p'\<lparr>execTree := execTree p' @ [cpath cc]\<rparr> \<and>
                  rawvals ls' = rawvals ls)"
  using assms
  by (auto simp: evalToken_def grown_refl split: option.splits if_splits sum.splits prod.splits
      dest: evalFlag_grown)


subsection \<open>Evaluating the command line\<close>

lemmas eval_defs =
  Eval_def idx_def lookupRoot_def cli_def filepath_Base_def start_def
  evalToken_def evalFlag_def splitFlag_def strings_Index_def GetFlag_def AllFlags_def
  appCmd_def serveCmd_def isFlag_def strings_HasPrefix_def
  strings_TrimLeft_def appendValue_def valuesOf_def arg_isBool_def isBool_def deref_def
  isPtr_def setValues_def setOne_def logSetters_def finish_def

lemmas arg_defs = tagsArg_def nameArg_def verboseArg_def portArg_def

subsection \<open>Required flags\<close>

lemma between_mono:
  "P \<subseteq> A \<and> A \<subseteq> P \<union> K \<Longrightarrow> K \<subseteq> K' \<Longrightarrow> P \<subseteq> A \<and> A \<subseteq> P \<union> K'"
  by blast

lemma between_commit:
  "P \<subseteq> A \<and> A \<subseteq> P \<union> K \<Longrightarrow> P \<subseteq> A \<union> K \<and> A \<union> K \<subseteq> P \<union> K"
  by blast

lemma required_invariant:
  assumes range: "\<And>vals. mset (rangeOrder env vals) = mset vals"
    and inv: "isSet p \<subseteq> isSet (ps ls) \<and> isSet (ps ls) \<subseteq> isSet p \<union> fst ` set (rawvals ls)"
    and tk: "evalToken env args i ls = Inr (i', ls')"
  shows "isSet p \<subseteq> isSet (ps ls') \<and> isSet (ps ls') \<subseteq> isSet p \<union> fst ` set (rawvals ls')"
proof -
  from evalToken_cases [OF tk] show ?thesis
  proof (elim disjE exE conjE)
    assume same: "ps ls' = ps ls" and "grown (rawvals ls) (rawvals ls')"
    then have "fst ` set (rawvals ls) \<subseteq> fst ` set (rawvals ls')"
      by (simp add: grown_def)
    with inv show ?thesis
      unfolding same by (rule between_mono)
  next
    fix p' cc
    assume c: "setValues env (rawvals ls) (ps ls) = Inr p'"
      and p: "ps ls' = p'\<lparr>execTree := execTree p' @ [cpath cc]\<rparr>"
      and r: "rawvals ls' = rawvals ls"
    have "isSet p' = isSet (ps ls) \<union> fst ` set (rawvals ls)"
      using setValues_effect [OF c range] by simp
    moreover have "isSet (ps ls') = isSet p'"
      unfolding p by simp
    ultimately have "isSet (ps ls') = isSet (ps ls) \<union> fst ` set (rawvals ls')"
      unfolding r by simp
    then show ?thesis
      unfolding r using between_commit [OF inv] by simp
  qed
qed

text \<open>
  The raw values and the tokens of the vector: the loop records a value only for an
  argument that a flag-like token names, and keeps what it has recorded.
\<close>

lemma keysOf_update:
  "keysOf (AList.update a s vals) = insert a (keysOf vals)"
  by (simp add: keysOf_def dom_update)

lemma keysOf_appendValue:
  "keysOf (appendValue vals a v) = insert a (keysOf vals)"
  by (simp add: appendValue_def keysOf_update)

lemma arrayCapture_adds:
  "arrayCapture args n i a vals = Inr (i', vals') \<Longrightarrow> keysOf vals' \<subseteq> insert a (keysOf vals)"
proof (induction n arbitrary: i vals)
  case 0
  then show ?case by auto
next
  case (Suc n)
  from Suc.prems obtain v where v: "idx args (i + 1) = Some v"
    by (auto split: option.splits)
  show ?case
  proof (cases "isFlag v")
    case True
    then show ?thesis using Suc.prems v Suc.IH by simp
  next
    case False
    then have "arrayCapture args n (i + 1) a (appendValue vals a v) = Inr (i', vals')"
      using Suc.prems v by simp
    then have "keysOf vals' \<subseteq> insert a (keysOf (appendValue vals a v))"
      by (rule Suc.IH)
    then show ?thesis
      by (simp add: keysOf_appendValue)
  qed
qed

lemma sliceCapture_adds:
  "sliceCapture rest i a vals = (i', vals') \<Longrightarrow> keysOf vals' \<subseteq> insert a (keysOf vals)"
proof (induction rest arbitrary: i vals)
  case Nil
  then show ?case by auto
next
  case (Cons v rest)
  show ?case
  proof (cases "isFlag v")
    case True
    then show ?thesis using Cons.prems Cons.IH by simp
  next
    case False
    then have "sliceCapture rest (i + 1) a (appendValue vals a v) = (i', vals')"
      using Cons.prems by simp
    then have "keysOf vals' \<subseteq> insert a (keysOf (appendValue vals a v))"
      by (rule Cons.IH)
    then show ?thesis
      by (simp add: keysOf_appendValue)
  qed
qed

lemma splitFlag_Inr:
  assumes "splitFlag t = Inr (arg, val, cf)"
  shows "arg = t \<and> val = [] \<and> \<not> cf"
proof (cases "strings_Index t ''='' = - 1")
  case True
  then show ?thesis using assms by (simp add: splitFlag_def)
next
  case False
  then show ?thesis using assms splitFlag_inline [of t] by simp
qed

lemma GetFlag_named:
  "GetFlag c t = Some a \<Longrightarrow> long a = t \<or> short a = t"
  by (auto simp: GetFlag_def find_Some_iff)

lemma evalFlag_adds:
  assumes "evalFlag args i c vals t = Inr (i', vals')"
  shows "\<exists>a. GetFlag c t = Some a \<and> keysOf vals' \<subseteq> insert a (keysOf vals)"
proof -
  from assms obtain arg val cf where sp: "splitFlag t = Inr (arg, val, cf)"
    by (auto simp: evalFlag_def split: sum.splits)
  then have eq: "arg = t" "val = []" "\<not> cf"
    using splitFlag_Inr by blast+
  from assms sp eq obtain a where g: "GetFlag c t = Some a"
    by (auto simp: evalFlag_def split: option.splits)
  have "keysOf vals' \<subseteq> insert a (keysOf vals)"
    using assms sp eq g
    by (auto simp: evalFlag_def keysOf_appendValue keysOf_update
        split: if_splits option.splits
        dest!: arrayCapture_adds sliceCapture_adds)
  then show ?thesis using g by blast
qed

lemma evalToken_adds:
  assumes "evalToken env args i ls = Inr (i', ls')"
  shows "keysOf (rawvals ls') \<subseteq> keysOf (rawvals ls) \<union> namedIn args"
proof -
  from assms obtain arg where arg: "idx args i = Some arg"
    by (auto simp: evalToken_def split: option.splits)
  then have mem: "arg \<in> set args"
    by (auto simp: idx_def split: if_splits)
  show ?thesis
  proof (cases "arg \<noteq> ''--'' \<and> \<not> positionalMode ls \<and> isFlag arg")
    case False
    then have "rawvals ls' = rawvals ls"
      using assms arg by (auto simp: evalToken_def split: option.splits sum.splits if_splits)
    then show ?thesis by simp
  next
    case True
    with assms arg obtain vals' where
      fl: "evalFlag args i (cur ls) (rawvals ls) arg = Inr (i', vals')" and r: "rawvals ls' = vals'"
      by (auto simp: evalToken_def split: sum.splits)
    from evalFlag_adds [OF fl] obtain a where
      g: "GetFlag (cur ls) arg = Some a" and sub: "keysOf vals' \<subseteq> insert a (keysOf (rawvals ls))"
      by blast
    have "a \<in> namedIn args"
      using GetFlag_named [OF g] mem True by (auto simp: namedIn_def)
    then show ?thesis
      using sub r by auto
  qed
qed

lemma evalLoop_adds:
  assumes "evalLoop env args i ls = Inr lsF"
  shows "keysOf (rawvals lsF) \<subseteq> keysOf (rawvals ls) \<union> namedIn args"
proof (rule evalLoop_invariant
    [where P = "\<lambda>l. keysOf (rawvals l) \<subseteq> keysOf (rawvals ls) \<union> namedIn args", OF _ _ assms])
  show "keysOf (rawvals ls) \<subseteq> keysOf (rawvals ls) \<union> namedIn args"
    by simp
next
  fix j l j' l'
  assume inv: "keysOf (rawvals l) \<subseteq> keysOf (rawvals ls) \<union> namedIn args"
    and tk: "evalToken env args j l = Inr (j', l')"
  have "keysOf (rawvals l') \<subseteq> keysOf (rawvals l) \<union> namedIn args"
    using tk by (rule evalToken_adds)
  with inv show "keysOf (rawvals l') \<subseteq> keysOf (rawvals ls) \<union> namedIn args"
    by auto
qed

lemma drop_Cons_at:
  assumes "drop i xs = y # ys"
  shows "i < length xs \<and> xs ! i = y \<and> drop (Suc i) xs = ys"
proof -
  have lt: "i < length xs"
    using assms by (cases "i < length xs") auto
  then have "drop i xs = xs ! i # drop (Suc i) xs"
    by (simp add: Cons_nth_drop_Suc)
  then show ?thesis
    using assms lt by simp
qed

lemma evalLoop_keeps:
  assumes "evalLoop env args i ls = Inr lsF"
  shows "keysOf (rawvals ls) \<subseteq> keysOf (rawvals lsF)"
proof (rule evalLoop_invariant
    [where P = "\<lambda>l. keysOf (rawvals ls) \<subseteq> keysOf (rawvals l)", OF _ _ assms])
  show "keysOf (rawvals ls) \<subseteq> keysOf (rawvals ls)"
    by simp
next
  fix j l j' l'
  assume inv: "keysOf (rawvals ls) \<subseteq> keysOf (rawvals l)"
    and tk: "evalToken env args j l = Inr (j', l')"
  have "keysOf (rawvals l) \<subseteq> keysOf (rawvals l')"
    using evalToken_cases [OF tk] by (auto simp: grown_def keysOf_def)
  with inv show "keysOf (rawvals ls) \<subseteq> keysOf (rawvals l')"
    by auto
qed

text \<open>A round on a subcommand name, in a loop that ends without a failure.\<close>

lemma round_subcommand:
  assumes loop: "evalLoop env args i l = Inr lsF"
    and tok: "drop i args = t # rest"
    and "t \<noteq> ''--''" and "\<not> positionalMode l" and "\<not> isFlag t"
    and "subcmd (cur l) = Some subs" and "map_of subs t = Some cc"
  shows "\<exists>l1. evalLoop env args (Suc i) l1 = Inr lsF \<and> cur l1 = cc \<and> \<not> positionalMode l1"
proof -
  from drop_Cons_at [OF tok] have lt: "i < length args" and at: "args ! i = t"
    by simp_all
  show ?thesis
  proof (cases "setValues env (rawvals l) (ps l)")
    case (Inl f)
    then have "evalToken env args i l = Inl f"
      using assms(3-7) lt at by (simp add: evalToken_def idx_def)
    then show ?thesis
      using loop lt by (simp add: evalLoop_step)
  next
    case (Inr p')
    let ?l1 = "l\<lparr>cur := cc, ps := p'\<lparr>execTree := execTree p' @ [cpath cc]\<rparr>\<rparr>"
    have "evalToken env args i l = Inr (i, ?l1)"
      using assms(3-7) lt at Inr by (simp add: evalToken_def idx_def)
    then have "evalLoop env args (Suc i) ?l1 = Inr lsF"
      using loop lt by (simp add: evalLoop_step)
    then show ?thesis
      using assms(4) by (intro exI [of _ ?l1]) simp
  qed
qed

text \<open>A round on the flag of a boolean argument.\<close>

lemma round_bool_flag:
  assumes loop: "evalLoop env args i l = Inr lsF"
    and tok: "drop i args = t # rest"
    and "\<not> positionalMode l" and "isFlag t" and "CHR ''='' \<notin> set t"
    and "GetFlag (cur l) t = Some a" and "\<not> isArray a" and "\<not> isSlice a" and "arg_isBool a"
  shows "\<exists>l1. evalLoop env args (Suc i) l1 = Inr lsF \<and> cur l1 = cur l \<and> \<not> positionalMode l1 \<and>
      a \<in> keysOf (rawvals l1)"
proof -
  from drop_Cons_at [OF tok] have lt: "i < length args" and at: "args ! i = t"
    by simp_all
  let ?l1 = "l\<lparr>rawvals := AList.update a [''true''] (rawvals l)\<rparr>"
  have "evalFlag args i (cur l) (rawvals l) t = Inr (i, AList.update a [''true''] (rawvals l))"
    using assms(5-9) by (simp add: evalFlag_def splitFlag_plain)
  then have "evalToken env args i l = Inr (i, ?l1)"
    using assms(3,4) isFlag_not_terminator [OF assms(4)] lt at
    by (simp add: evalToken_def idx_def)
  then have "evalLoop env args (Suc i) ?l1 = Inr lsF"
    using loop lt by (simp add: evalLoop_step)
  then show ?thesis
    using assms(3) by (intro exI [of _ ?l1]) (simp add: keysOf_update)
qed

text \<open>A round on the flag of an argument that takes the next token as its value.\<close>

lemma round_value_flag:
  assumes loop: "evalLoop env args i l = Inr lsF"
    and tok: "drop i args = t # v # rest"
    and "\<not> positionalMode l" and "isFlag t" and "CHR ''='' \<notin> set t"
    and "GetFlag (cur l) t = Some a" and "\<not> isArray a" and "\<not> isSlice a" and "\<not> arg_isBool a"
  shows "\<exists>l1. evalLoop env args (Suc (Suc i)) l1 = Inr lsF \<and> cur l1 = cur l \<and>
      \<not> positionalMode l1 \<and> map_of (rawvals l1) a = Some [v]"
proof -
  from drop_Cons_at [OF tok] have lt: "i < length args" and at: "args ! i = t"
    and nx: "drop (Suc i) args = v # rest"
    by simp_all
  from drop_Cons_at [OF nx] have lt1: "Suc i < length args" and at1: "args ! Suc i = v"
    by simp_all
  let ?l1 = "l\<lparr>rawvals := AList.update a [v] (rawvals l)\<rparr>"
  have "evalFlag args i (cur l) (rawvals l) t = Inr (Suc i, AList.update a [v] (rawvals l))"
    using assms(5-9) lt1 at1 by (simp add: evalFlag_def splitFlag_plain idx_def)
  then have "evalToken env args i l = Inr (Suc i, ?l1)"
    using assms(3,4) isFlag_not_terminator [OF assms(4)] lt at
    by (simp add: evalToken_def idx_def)
  then have "evalLoop env args (Suc (Suc i)) ?l1 = Inr lsF"
    using loop lt by (simp add: evalLoop_step)
  then show ?thesis
    using assms(3) by (intro exI [of _ ?l1]) (simp add: update_conv')
qed

lemma plainPrefix_loop:
  assumes "plainPrefix (cur l) pre = Some c" and "\<not> positionalMode l"
    and "drop i args = pre @ sfx" and "evalLoop env args i l = Inr lsF"
  shows "\<exists>l'. evalLoop env args (i + length pre) l' = Inr lsF \<and> cur l' = c \<and> \<not> positionalMode l'"
  using assms
proof (induction "length pre" arbitrary: pre i l rule: less_induct)
  case less
  show ?case
  proof (cases pre)
    case Nil
    then show ?thesis
      using less.prems by (intro exI [of _ l]) simp
  next
    case (Cons t ts)
    note pp = less.prems(1) [unfolded Cons]
    have dr: "drop i args = t # (ts @ sfx)"
      using less.prems(3) Cons by simp
    have ne: "t \<noteq> ''--''"
      using pp by (auto split: if_splits)
    show ?thesis
    proof (cases "isFlag t")
      case False
      from pp ne False obtain subs cc where
        s: "subcmd (cur l) = Some subs" and m: "map_of subs t = Some cc"
        and rest: "plainPrefix cc ts = Some c"
        by (auto split: option.splits)
      from round_subcommand [OF less.prems(4) dr ne less.prems(2) False s m] obtain l1 where
        l1: "evalLoop env args (Suc i) l1 = Inr lsF" "cur l1 = cc" "\<not> positionalMode l1"
        by blast
      have "drop (Suc i) args = ts @ sfx"
        using drop_Cons_at [OF dr] by simp
      with less.hyps [of ts l1 "Suc i"] l1 rest Cons
      obtain l' where "evalLoop env args (Suc i + length ts) l' = Inr lsF" "cur l' = c"
        "\<not> positionalMode l'"
        by auto
      then show ?thesis
        using Cons by (intro exI [of _ l']) simp
    next
      case True
      from pp ne True obtain a where eq: "CHR ''='' \<notin> set t"
        and g: "GetFlag (cur l) t = Some a" and na: "\<not> isArray a" and ns: "\<not> isSlice a"
        by (auto split: if_splits option.splits)
      show ?thesis
      proof (cases "arg_isBool a")
        case b: True
        then have rest: "plainPrefix (cur l) ts = Some c"
          using pp ne True eq g na ns by simp
        from round_bool_flag [OF less.prems(4) dr less.prems(2) True eq g na ns b] obtain l1 where
          l1: "evalLoop env args (Suc i) l1 = Inr lsF" "cur l1 = cur l" "\<not> positionalMode l1"
          by blast
        have "drop (Suc i) args = ts @ sfx"
          using drop_Cons_at [OF dr] by simp
        with less.hyps [of ts l1 "Suc i"] l1 rest Cons
        obtain l' where "evalLoop env args (Suc i + length ts) l' = Inr lsF" "cur l' = c"
          "\<not> positionalMode l'"
          by auto
        then show ?thesis
          using Cons by (intro exI [of _ l']) simp
      next
        case nb: False
        from pp ne True eq g na ns nb obtain v ts' where ts: "ts = v # ts'"
          and rest: "plainPrefix (cur l) ts' = Some c"
          by (auto split: list.splits)
        have dr2: "drop i args = t # v # (ts' @ sfx)"
          using dr ts by simp
        from round_value_flag [OF less.prems(4) dr2 less.prems(2) True eq g na ns nb] obtain l1 where
          l1: "evalLoop env args (Suc (Suc i)) l1 = Inr lsF" "cur l1 = cur l" "\<not> positionalMode l1"
          by blast
        have "drop (Suc (Suc i)) args = ts' @ sfx"
          using drop_Cons_at [OF dr2] drop_Cons_at [of "Suc i" args v "ts' @ sfx"] by simp
        with less.hyps [of ts' l1 "Suc (Suc i)"] l1 rest Cons ts
        obtain l' where "evalLoop env args (Suc (Suc i) + length ts') l' = Inr lsF" "cur l' = c"
          "\<not> positionalMode l'"
          by auto
        then show ?thesis
          using Cons ts by (intro exI [of _ l']) simp
      qed
    qed
  qed
qed

text \<open>The flag of a value-taking argument after a plain prefix.\<close>

lemma value_after_plainPrefix:
  assumes loop: "evalLoop env (pre @ tok # v # post) 0 l = Inr lsF"
    and "\<not> positionalMode l" and "plainPrefix (cur l) pre = Some c"
    and "isFlag tok" and "CHR ''='' \<notin> set tok"
    and "GetFlag c tok = Some a" and "\<not> isArray a" and "\<not> isSlice a" and "\<not> arg_isBool a"
  shows "a \<in> keysOf (rawvals lsF)"
proof -
  let ?args = "pre @ tok # v # post"
  have "drop 0 ?args = pre @ (tok # v # post)"
    by simp
  from plainPrefix_loop [OF assms(3,2) this loop] obtain l' where
    l': "evalLoop env ?args (length pre) l' = Inr lsF" "cur l' = c" "\<not> positionalMode l'"
    by auto
  have dr: "drop (length pre) ?args = tok # v # post"
    by simp
  from round_value_flag [OF l'(1) dr l'(3) assms(4,5) _ assms(7,8,9)] assms(6) l'(2)
  obtain l1 where l1: "evalLoop env ?args (Suc (Suc (length pre))) l1 = Inr lsF"
    "map_of (rawvals l1) a = Some [v]"
    by auto
  have "a \<in> keysOf (rawvals l1)"
    using l1(2) by (auto simp: keysOf_def dest: map_of_SomeD intro: rev_image_eqI)
  then show ?thesis
    using evalLoop_keeps [OF l1(1)] by auto
qed

lemmas account_defs =
  accounts_def accountCmd_def loginCmd_def debugArg_def labelsArg_def forceArg_def
  ownerArg_def userArg_def

text \<open>
  C5, amended. Let the resolution reach the end of the input: the loop and the final
  commit return no failure, and a range over the map visits each of its entries once.
  The set-state flags after the final commit are then those that were set when Eval
  was entered together with those of the arguments for which the loop recorded a raw
  value. Eval fails with "required flag not set" when a required argument of the final
  command is not among them, naming the long name of the first such argument in the
  order of the command's flags, and returns nil otherwise; the arguments of other
  commands are not looked at. A required argument \<open>a\<close> of the final command that was
  not set on entry, and whose long and short names are not among the tokens of the
  vector that look like flags, is not set, so Eval fails with that error. When the
  vector after the command name is a plain prefix, then the flag of a scalar argument
  \<open>d\<close> that takes a value, then one more token (the empty string too), a raw value
  is recorded for \<open>d\<close>: \<open>d\<close> is set and is not the argument the error names.
\<close>

theorem required_check:
  assumes root: "lookupRoot p cmd = Some c0"
    and loop: "evalLoop env rest 0 (start p c0) = Inr ls"
    and commit: "setValues env (rawvals ls) (ps ls) = Inr p'"
    and range: "\<And>vals. mset (rangeOrder env vals) = mset vals"
  shows "isSet p' = isSet p \<union> fst ` set (rawvals ls) \<and>
     Eval env p (cmd # rest) =
       (case find (\<lambda>x. required x \<and> x \<notin> isSet p \<and> x \<notin> fst ` set (rawvals ls))
               (AllFlags (cur ls)) of
          Some b \<Rightarrow> Inl (Err (ErrRequiredFlagNotSet (long b)))
        | None \<Rightarrow> Inr p') \<and>
     (a \<in> set (AllFlags (cur ls)) \<and> required a \<and> a \<notin> isSet p \<and>
      long a \<notin> set (filter isFlag rest) \<and> short a \<notin> set (filter isFlag rest) \<longrightarrow>
        a \<notin> isSet p' \<and>
        (\<exists>b. find (\<lambda>x. required x \<and> x \<notin> isSet p') (AllFlags (cur ls)) = Some b \<and>
             Eval env p (cmd # rest) = Inl (Err (ErrRequiredFlagNotSet (long b))))) \<and>
     (rest = pre @ tok # v # post \<and> plainPrefix c0 pre = Some c \<and> isFlag tok \<and>
      CHR ''='' \<notin> set tok \<and> GetFlag c tok = Some d \<and>
      \<not> isArray d \<and> \<not> isSlice d \<and> \<not> arg_isBool d \<longrightarrow>
        d \<in> isSet p' \<and>
        find (\<lambda>x. required x \<and> x \<notin> isSet p') (AllFlags (cur ls)) \<noteq> Some d)"
proof -
  have "isSet p \<subseteq> isSet (ps ls) \<and> isSet (ps ls) \<subseteq> isSet p \<union> fst ` set (rawvals ls)"
  proof (rule evalLoop_invariant [where P = "\<lambda>l. isSet p \<subseteq> isSet (ps l) \<and>
        isSet (ps l) \<subseteq> isSet p \<union> fst ` set (rawvals l)", OF _ _ loop])
    show "isSet p \<subseteq> isSet (ps (start p c0)) \<and>
        isSet (ps (start p c0)) \<subseteq> isSet p \<union> fst ` set (rawvals (start p c0))"
      by (simp add: start_def)
  next
    fix i l i' l'
    assume "isSet p \<subseteq> isSet (ps l) \<and> isSet (ps l) \<subseteq> isSet p \<union> fst ` set (rawvals l)"
      and "evalToken env rest i l = Inr (i', l')"
    then show "isSet p \<subseteq> isSet (ps l') \<and> isSet (ps l') \<subseteq> isSet p \<union> fst ` set (rawvals l')"
      using required_invariant [OF range] by blast
  qed
  moreover have "isSet p' = isSet (ps ls) \<union> fst ` set (rawvals ls)"
    using setValues_effect [OF commit range] by simp
  ultimately have st: "isSet p' = isSet p \<union> fst ` set (rawvals ls)"
    by blast
  then have stk: "isSet p' = isSet p \<union> keysOf (rawvals ls)"
    by (simp add: keysOf_def)
  have "Eval env p (cmd # rest) = finish env ls"
    using root loop by (simp add: Eval_def idx_def)
  also have "\<dots> = (case find (\<lambda>x. required x \<and> x \<notin> isSet p') (AllFlags (cur ls)) of
          Some b \<Rightarrow> Inl (Err (ErrRequiredFlagNotSet (long b)))
        | None \<Rightarrow> Inr p')"
    using commit by (simp add: finish_def)
  finally have ev: "Eval env p (cmd # rest) =
      (case find (\<lambda>x. required x \<and> x \<notin> isSet p') (AllFlags (cur ls)) of
          Some b \<Rightarrow> Inl (Err (ErrRequiredFlagNotSet (long b)))
        | None \<Rightarrow> Inr p')" .
  have absent: "a \<notin> isSet p' \<and>
      (\<exists>b. find (\<lambda>x. required x \<and> x \<notin> isSet p') (AllFlags (cur ls)) = Some b \<and>
           Eval env p (cmd # rest) = Inl (Err (ErrRequiredFlagNotSet (long b))))"
    if h: "a \<in> set (AllFlags (cur ls)) \<and> required a \<and> a \<notin> isSet p \<and>
      long a \<notin> set (filter isFlag rest) \<and> short a \<notin> set (filter isFlag rest)"
  proof -
    have "keysOf (rawvals ls) \<subseteq> keysOf (rawvals (start p c0)) \<union> namedIn rest"
      using loop by (rule evalLoop_adds)
    then have "keysOf (rawvals ls) \<subseteq> namedIn rest"
      by (simp add: start_def keysOf_def)
    moreover have "a \<notin> namedIn rest"
      using h by (simp add: namedIn_def)
    ultimately have "a \<notin> keysOf (rawvals ls)"
      by auto
    then have na: "a \<notin> isSet p'"
      using h stk by simp
    then have "find (\<lambda>x. required x \<and> x \<notin> isSet p') (AllFlags (cur ls)) \<noteq> None"
      using h by (auto simp: find_None_iff)
    then obtain b where "find (\<lambda>x. required x \<and> x \<notin> isSet p') (AllFlags (cur ls)) = Some b"
      by auto
    then show ?thesis
      using na ev by simp
  qed
  have present: "d \<in> isSet p' \<and>
      find (\<lambda>x. required x \<and> x \<notin> isSet p') (AllFlags (cur ls)) \<noteq> Some d"
    if h: "rest = pre @ tok # v # post \<and> plainPrefix c0 pre = Some c \<and> isFlag tok \<and>
      CHR ''='' \<notin> set tok \<and> GetFlag c tok = Some d \<and>
      \<not> isArray d \<and> \<not> isSlice d \<and> \<not> arg_isBool d"
  proof -
    have l: "evalLoop env (pre @ tok # v # post) 0 (start p c0) = Inr ls"
      using loop h by simp
    have "d \<in> keysOf (rawvals ls)"
      by (rule value_after_plainPrefix [OF l, where c = c]) (use h in \<open>simp_all add: start_def\<close>)
    then have "d \<in> isSet p'"
      using stk by simp
    then show ?thesis
      by (auto simp: find_Some_iff)
  qed
  show ?thesis
    using st ev absent present by simp
qed


theorem required_check_witness:
  "Eval logSetters cli [''app'', ''serve''] = Inl (Err (ErrRequiredFlagNotSet ''--port'')) \<and>
   plainPrefix accountCmd [''--debug'', ''login''] = Some loginCmd \<and>
   GetFlag loginCmd ''--user'' = Some userArg \<and>
   Eval logSetters accounts [''account'', ''--debug'', ''login'', ''--user'', ''''] =
     Inr (accounts\<lparr>execTree := [Path 0 [], Path 0 [''Login'']], isSet := {debugArg, userArg},
            bound := [(debugArg, [''true'']), (debugArg, [''true'']), (userArg, [''''])]\<rparr>)"
proof (intro conjI)
  let ?ls = "\<lparr>cur = serveCmd, rawvals = [], positionalMode = False, positionals = [],
      ps = cli\<lparr>execTree := [Path 1 [], Path 1 [''Serve'']]\<rparr>\<rparr>"
  have root: "lookupRoot cli ''app'' = Some appCmd"
    by (simp add: lookupRoot_def cli_def)
  have loop: "evalLoop logSetters [''serve''] 0 (start cli appCmd) = Inr ?ls"
    by (simp add: evalLoop_step evalLoop_end eval_defs)
  have commit: "setValues logSetters (rawvals ?ls) (ps ?ls) = Inr (ps ?ls)"
    by (simp add: setValues_def logSetters_def)
  have range: "\<And>vals. mset (rangeOrder logSetters vals) = mset vals"
    by (simp add: logSetters_def)
  show "Eval logSetters cli [''app'', ''serve''] = Inl (Err (ErrRequiredFlagNotSet ''--port''))"
    using required_check [OF root loop commit range, where a = portArg]
    by (simp add: AllFlags_def serveCmd_def portArg_def cli_def isFlag_def
        strings_HasPrefix_def strings_TrimLeft_def)
next
  show "plainPrefix accountCmd [''--debug'', ''login''] = Some loginCmd"
    by (simp add: account_defs GetFlag_def isFlag_def strings_HasPrefix_def
        strings_TrimLeft_def arg_isBool_def isBool_def deref_def isPtr_def)
next
  show "GetFlag loginCmd ''--user'' = Some userArg"
    by (simp add: account_defs GetFlag_def)
next
  let ?rest = "[''--debug'', ''login'', ''--user'', '''']"
  let ?ls = "\<lparr>cur = loginCmd, rawvals = [(debugArg, [''true'']), (userArg, [''''])],
      positionalMode = False, positionals = [],
      ps = accounts\<lparr>execTree := [Path 0 [], Path 0 [''Login'']], isSet := {debugArg},
             bound := [(debugArg, [''true''])]\<rparr>\<rparr>"
  let ?p' = "accounts\<lparr>execTree := [Path 0 [], Path 0 [''Login'']], isSet := {debugArg, userArg},
      bound := [(debugArg, [''true'']), (debugArg, [''true'']), (userArg, [''''])]\<rparr>"
  have root: "lookupRoot accounts ''account'' = Some accountCmd"
    by (simp add: lookupRoot_def accounts_def)
  have loop: "evalLoop logSetters ?rest 0 (start accounts accountCmd) = Inr ?ls"
    by (simp add: evalLoop.simps eval_defs account_defs Let_def)
  have commit: "setValues logSetters (rawvals ?ls) (ps ?ls) = Inr ?p'"
    by (simp add: eval_defs account_defs Let_def insert_commute)
  have range: "\<And>vals. mset (rangeOrder logSetters vals) = mset vals"
    by (simp add: logSetters_def)
  have pre: "plainPrefix accountCmd [''--debug'', ''login''] = Some loginCmd"
    by (simp add: account_defs GetFlag_def isFlag_def strings_HasPrefix_def
        strings_TrimLeft_def arg_isBool_def isBool_def deref_def isPtr_def)
  have g: "GetFlag loginCmd ''--user'' = Some userArg"
    by (simp add: account_defs GetFlag_def)
  have u: "\<not> isArray userArg \<and> \<not> isSlice userArg \<and> \<not> arg_isBool userArg \<and> required userArg"
    by (simp add: userArg_def arg_isBool_def isBool_def deref_def isPtr_def)
  have f: "isFlag ''--user''"
    by (simp add: isFlag_def strings_HasPrefix_def strings_TrimLeft_def)
  have "userArg \<in> isSet ?p' \<and> Eval logSetters accounts (''account'' # ?rest) = Inr ?p'"
    using required_check [OF root loop commit range, where pre = "[''--debug'', ''login'']"
        and tok = "''--user''" and v = "''''" and post = "[]" and c = loginCmd and d = userArg]
      pre g u f
    by (simp add: AllFlags_def loginCmd_def find_Some_iff)
  then show "Eval logSetters accounts [''account'', ''--debug'', ''login'', ''--user'', ''''] = Inr ?p'"
    by simp
qed

text \<open>
  C5, as the spec has it, fails: Eval does not reset the set-state flags. After an Eval
  that gave \<^verbatim>\<open>--port\<close> a value, a second Eval on the same parser with no value for
  the required \<^verbatim>\<open>--port\<close> returns nil.
\<close>

theorem stale_set_state:
  "Eval logSetters cli [''app'', ''serve'', ''--port'', ''80''] =
     Inr (cli\<lparr>execTree := [Path 1 [], Path 1 [''Serve'']], isSet := {portArg},
              bound := [(portArg, [''80''])]\<rparr>) \<and>
   Eval logSetters
     (cli\<lparr>execTree := [Path 1 [], Path 1 [''Serve'']], isSet := {portArg},
          bound := [(portArg, [''80''])]\<rparr>)
     [''app'', ''serve''] =
     Inr (cli\<lparr>execTree := [Path 1 [], Path 1 [''Serve''], Path 1 [], Path 1 [''Serve'']],
              isSet := {portArg}, bound := [(portArg, [''80''])]\<rparr>)"
  by (simp add: evalLoop.simps eval_defs arg_defs Let_def)

text \<open>
  That a flag occurs in the vector is not enough for it to be read: on
  \<^verbatim>\<open>--labels --force --owner x\<close> the greedy capture for \<^verbatim>\<open>--labels\<close> passes over
  \<^verbatim>\<open>--force\<close>, and the loop resumes behind it.
\<close>

lemma passed_over_flag:
  "Eval logSetters accounts [''account'', ''--labels'', ''--force'', ''--owner'', ''x''] =
     Inl (Err (ErrRequiredFlagNotSet ''--force''))"
  by (simp add: evalLoop.simps eval_defs account_defs Let_def)

subsection \<open>How often a flag is coerced\<close>

lemma setOne_log:
  assumes "setOne (logSetters\<lparr>rangeOrder := ord\<rparr>) a s p = Inr p'"
  shows "map fst (bound p') = map fst (bound p) @ [a]"
  using assms
  by (auto simp: setOne_def logSetters_def Let_def split: if_splits option.splits)

lemma setEntries_log:
  assumes "setEntries (logSetters\<lparr>rangeOrder := ord\<rparr>) es p = Inr p'"
  shows "map fst (bound p') = map fst (bound p) @ map fst es"
  using assms
proof (induction es arbitrary: p)
  case Nil
  then show ?case by simp
next
  case (Cons e es)
  obtain a s where e: "e = (a, s)" by (cases e)
  from Cons.prems e obtain p1 where
    one: "setOne (logSetters\<lparr>rangeOrder := ord\<rparr>) a s p = Inr p1"
    and rest: "setEntries (logSetters\<lparr>rangeOrder := ord\<rparr>) es p1 = Inr p'"
    by (auto split: sum.splits)
  show ?case
    using setOne_log [OF one] Cons.IH [OF rest] e by simp
qed

lemma count_list_distinct:
  "distinct xs \<Longrightarrow> x \<in> set xs \<Longrightarrow> count_list xs x = 1"
  by (induction xs) auto

lemma setValues_log:
  assumes commit: "setValues (logSetters\<lparr>rangeOrder := ord\<rparr>) vals p = Inr p'"
    and perm: "mset (ord vals) = mset vals"
  shows "count_list (map fst (bound p')) a =
         count_list (map fst (bound p)) a + count_list (map fst vals) a"
proof -
  have "map fst (bound p') = map fst (bound p) @ map fst (ord vals)"
    using commit setEntries_log [of ord "ord vals" p p'] by (simp add: setValues_def)
  moreover have "count_list (map fst (ord vals)) a = count_list (map fst vals) a"
  proof -
    have "mset (map fst (ord vals)) = mset (map fst vals)"
      using perm by simp
    then have "count (mset (map fst (ord vals))) a = count (mset (map fst vals)) a"
      by simp
    then show ?thesis
      by (simp only: count_mset)
  qed
  ultimately show ?thesis by simp
qed

text \<open>
  C2. The spec has the coercion of a flag run once for each Eval. The code commits
  the raw values at a subcommand transition and does not empty the map, so every later
  commit goes over the same entries again. With the logging setters, whatever the order
  of the range: an argument that holds a raw value at some point of the loop has been
  coerced, when Eval ends, once for every subcommand transition after that point and
  once more by the final commit.
\<close>

theorem commit_repeats:
  assumes perm: "\<And>vals. mset (ord vals) = mset vals"
    and dist: "distinct (map fst (rawvals ls))"
    and key: "a \<in> fst ` set (rawvals ls)"
    and loop: "evalLoop (logSetters\<lparr>rangeOrder := ord\<rparr>) args i ls = Inr lsF"
    and commit: "setValues (logSetters\<lparr>rangeOrder := ord\<rparr>) (rawvals lsF) (ps lsF) = Inr p'"
  shows "count_list (map fst (bound p')) a =
     count_list (map fst (bound (ps ls))) a
       + (length (execTree (ps lsF)) - length (execTree (ps ls))) + 1"
proof -
  let ?E = "logSetters\<lparr>rangeOrder := ord\<rparr>"
  let ?n = "\<lambda>l. count_list (map fst (bound (ps l))) a"
  let ?t = "\<lambda>l. length (execTree (ps l))"
  let ?Q = "\<lambda>l. a \<in> fst ` set (rawvals l) \<and> distinct (map fst (rawvals l)) \<and>
      ?t ls \<le> ?t l \<and> ?n l + ?t ls = ?n ls + ?t l"
  have range: "\<And>vals. mset (rangeOrder ?E vals) = mset vals"
    using perm by simp
  have "?Q lsF"
  proof (rule evalLoop_invariant [where P = ?Q, OF _ _ loop])
    show "?Q ls"
      using dist key by simp
  next
    fix j l j' l'
    assume q: "?Q l" and tk: "evalToken ?E args j l = Inr (j', l')"
    from evalToken_cases [OF tk] show "?Q l'"
    proof (elim disjE exE conjE)
      assume same: "ps l' = ps l" and g: "grown (rawvals l) (rawvals l')"
      have "a \<in> fst ` set (rawvals l')" and "distinct (map fst (rawvals l'))"
        using g q unfolding grown_def by blast+
      then show ?thesis
        using q unfolding same by simp
    next
      fix p1 cc
      assume c: "setValues ?E (rawvals l) (ps l) = Inr p1"
        and p: "ps l' = p1\<lparr>execTree := execTree p1 @ [cpath cc]\<rparr>"
        and r: "rawvals l' = rawvals l"
      have "count_list (map fst (rawvals l)) a = 1"
        using q by (simp add: count_list_distinct)
      then have n: "count_list (map fst (bound p1)) a = ?n l + 1"
        using setValues_log [OF c perm, of a] by simp
      have t: "execTree p1 = execTree (ps l)"
        using setValues_effect [OF c range] by simp
      show ?thesis
        using q n t unfolding p r by simp
    qed
  qed
  then have le: "?t ls \<le> ?t lsF" and eq: "?n lsF + ?t ls = ?n ls + ?t lsF"
    and "count_list (map fst (rawvals lsF)) a = 1"
    by (simp_all add: count_list_distinct)
  then have "count_list (map fst (bound p')) a = ?n lsF + 1"
    using setValues_log [OF commit perm, of a] by simp
  with le eq show ?thesis
    by linarith
qed

theorem commit_repeats_witness:
  "Eval logSetters cli [''app'', ''--name'', ''x'', ''serve'', ''--port'', ''80''] =
     Inr (cli\<lparr>execTree := [Path 1 [], Path 1 [''Serve'']], isSet := {nameArg, portArg},
              bound := [(nameArg, [''x'']), (nameArg, [''x'']), (portArg, [''80''])]\<rparr>) \<and>
   count_list
     (map fst
        (bound (cli\<lparr>execTree := [Path 1 [], Path 1 [''Serve'']], isSet := {nameArg, portArg},
                   bound := [(nameArg, [''x'']), (nameArg, [''x'']), (portArg, [''80''])]\<rparr>)))
     nameArg = 2"
proof (rule conjI)
  show "Eval logSetters cli [''app'', ''--name'', ''x'', ''serve'', ''--port'', ''80''] =
     Inr (cli\<lparr>execTree := [Path 1 [], Path 1 [''Serve'']], isSet := {nameArg, portArg},
              bound := [(nameArg, [''x'']), (nameArg, [''x'']), (portArg, [''80''])]\<rparr>)"
    by (simp add: evalLoop.simps eval_defs arg_defs Let_def insert_commute)
next
  let ?args = "[''--name'', ''x'', ''serve'', ''--port'', ''80'']"
  let ?E = "logSetters\<lparr>rangeOrder := \<lambda>vals. vals\<rparr>"
  let ?ls = "start cli appCmd\<lparr>rawvals := [(nameArg, [''x''])]\<rparr>"
  let ?lsF = "\<lparr>cur = serveCmd, rawvals = [(nameArg, [''x'']), (portArg, [''80''])],
      positionalMode = False, positionals = [],
      ps = cli\<lparr>execTree := [Path 1 [], Path 1 [''Serve'']], isSet := {nameArg},
                bound := [(nameArg, [''x''])]\<rparr>\<rparr>"
  let ?p' = "cli\<lparr>execTree := [Path 1 [], Path 1 [''Serve'']], isSet := {nameArg, portArg},
      bound := [(nameArg, [''x'']), (nameArg, [''x'']), (portArg, [''80''])]\<rparr>"
  have perm: "\<And>vals. mset ((\<lambda>vals. vals) vals) = mset (vals :: rawvalues)"
    by simp
  have dist: "distinct (map fst (rawvals ?ls))"
    by simp
  have key: "nameArg \<in> fst ` set (rawvals ?ls)"
    by simp
  have loop: "evalLoop ?E ?args 2 ?ls = Inr ?lsF"
    by (simp add: evalLoop.simps eval_defs arg_defs Let_def)
  have commit: "setValues ?E (rawvals ?lsF) (ps ?lsF) = Inr ?p'"
    by (simp add: eval_defs arg_defs Let_def insert_commute)
  show "count_list (map fst (bound ?p')) nameArg = 2"
    using commit_repeats [of "\<lambda>vals. vals", OF perm dist key loop commit]
    by (simp add: start_def cli_def)
qed

end
